theory Spec2Isabelle
  imports Complex_Main "HOL-Library.Word" "HOL-Library.Monad_Syntax"
begin

unbundle bit_operations_syntax

section \<open>The compressed-streaming file format of the DAQmx examples\<close>

text \<open>
  The two programs modelled here are
  \<^verbatim>\<open>Professional/Compressed_Streaming/GraphAcquiredCompactedData/GraphAcquiredCompactedData.c\<close>
  (the decoder) and
  \<^verbatim>\<open>Professional/Compressed_Streaming/ContAcqVoltage-ToFile-Compacted/ContAcqVoltage-ToFile-Compacted.c\<close>
  (the encoder of the header).

  Conventions of the embedding.
  \<^item> \<^verbatim>\<open>uInt8\<close> is \<open>8 word\<close>, \<^verbatim>\<open>uInt32\<close> is \<open>32 word\<close>. The decoder scans
    \<^verbatim>\<open>uInt32\<close> fields with \<^verbatim>\<open>%ld\<close>, so it is written for a data model in which
    \<^verbatim>\<open>long\<close> has 32 bits (Win32/Win64, ILP32); \<^verbatim>\<open>long val\<close> is therefore a
    \<open>32 word\<close> as well, and the integer that reaches the scaling polynomial is
    its two's-complement reading \<open>sint val\<close>.
  \<^item> C shifts of 32-bit operands by 32 or more positions are undefined; they are
    written with \<open>push_bit\<close>, which yields 0 there. Statements that depend on a
    shift restrict the widths so that the amount is below 32. Two shifts are
    explicit failures of the model instead: \<^verbatim>\<open>ch >> (8-bitPos-1)\<close>, whose amount
    can become negative while decoding, and \<^verbatim>\<open>*rawData++ << iByte * 8\<close>, whose
    amount reaches 32 at the fifth byte of a sample.
  \<^item> The linked chains \<^verbatim>\<open>ChannelInfo.next\<close> and \<^verbatim>\<open>ScaleCoeff.next\<close> are lists;
    a \<^verbatim>\<open>NULL\<close> chain pointer is the empty list.
  \<^item> The buffer \<^verbatim>\<open>rawData\<close> with its remaining length \<^verbatim>\<open>numBytes\<close> is the list
    of bytes not yet consumed: every \<^verbatim>\<open>*rawData++\<close> of the source is paired
    with \<^verbatim>\<open>--numBytes\<close>, and \<^verbatim>\<open>ReadDataFileData\<close> sets \<^verbatim>\<open>numBytes\<close> to the number of
    bytes it has read.
  \<^item> \<^verbatim>\<open>float64\<close> arithmetic is modelled by exact real arithmetic.
  \<^item> The output arrays \<^verbatim>\<open>data[iChan][iSamp]\<close> are returned as the list of the
    completed rows \<^verbatim>\<open>iSamp < numSamples\<close>, each row listing the channels in
    order; the return value \<^verbatim>\<open>numSamples\<close> is the length of that list. The
    capacity of the arrays is not modelled.
\<close>

type_synonym uInt8 = "8 word"
type_synonym uInt32 = "32 word"
type_synonym long = "32 word"

datatype ByteOrder = BigEndian | LittleEndian

datatype Justification = DAQmx_Val_LeftJustified | DAQmx_Val_RightJustified

datatype CompressionType =
  DAQmx_Val_None | DAQmx_Val_LosslessPacking | DAQmx_Val_LossyLSBRemoval

record ChannelInfo =
  name :: string
  rawSampleResolution :: uInt32
  rawSampleSizeInBits :: uInt32
  rawSampleJustification :: Justification
  signedNumber :: bool
  compressionType :: CompressionType
  compressedSampleSizeInBits :: uInt32
  compressionByteOrder :: ByteOrder
  polynomialScalingCoeffChain :: "real list"

record DataFileInfo =
  version :: string
  headerSize :: uInt32
  taskName :: string
  numberOfChannels :: uInt32
  readBlockSize :: uInt32
  readBlockSizeInBytes :: uInt32
  channelInfoChain :: "ChannelInfo list"

subsection \<open>Scaling\<close>

text \<open>
  \<^verbatim>\<open>for(data=0.0,coeff=chain; coeff; coeff=coeff->next,polynom*=val)
     data += coeff->scalingCoeff * polynom;\<close>
  with \<^verbatim>\<open>polynom\<close> starting at 1.0.
\<close>

fun ScaleLoop :: "real list \<Rightarrow> real \<Rightarrow> real \<Rightarrow> real \<Rightarrow> real" where
  "ScaleLoop [] v polynom acc = acc"
| "ScaleLoop (c # coeff) v polynom acc = ScaleLoop coeff v (polynom * v) (acc + c * polynom)"

definition Scale :: "ChannelInfo \<Rightarrow> long \<Rightarrow> real" where
  "Scale chan val = ScaleLoop (polynomialScalingCoeffChain chan) (real_of_int (sint val)) 1 0"

text \<open>
  The decoders below take the scaling step as a parameter \<open>scale\<close>, applied to
  the channel and to the final \<^verbatim>\<open>val\<close>. The program is the instance
  \<open>scale = Scale\<close>; a statement for every \<open>scale\<close> is a statement about the raw
  integer handed to the polynomial.
\<close>

subsection \<open>\<^verbatim>\<open>DecodeDataWithoutPacking\<close>\<close>

text \<open>
  The two byte loops (source lines 291 to 296):
  \<^verbatim>\<open>for(iByte=0;iByte<bytes&&numBytes;++iByte,--numBytes) val += *rawData++ << iByte * 8;\<close>
  and
  \<^verbatim>\<open>for(iByte=0;iByte<bytes&&numBytes;++iByte,--numBytes) val = (val<<8) + *rawData++;\<close>

  In the first loop the byte is promoted to an \<^verbatim>\<open>int\<close> of 32 bits and shifted by
  \<^verbatim>\<open>iByte * 8\<close> positions. From the fifth byte of a sample on, which a channel of
  40 bits or more reaches when five bytes are left, the amount is 32 or more and
  the shift is undefined in C. The decoder stops there with the fault
  \<open>WideShift\<close>: nothing is said about what the program does from then on.
\<close>

datatype fault = WideShift

fun ReadLittleEndian ::
  "nat \<Rightarrow> nat \<Rightarrow> uInt8 list \<Rightarrow> long \<Rightarrow> fault + long \<times> uInt8 list" where
  "ReadLittleEndian iByte bytes [] val = Inr (val, [])"
| "ReadLittleEndian iByte bytes (b # rawData) val =
     (if iByte < bytes
      then if 32 \<le> iByte * 8 then Inl WideShift
           else ReadLittleEndian (Suc iByte) bytes rawData (val + push_bit (iByte * 8) (ucast b))
      else Inr (val, b # rawData))"

fun ReadBigEndian :: "nat \<Rightarrow> nat \<Rightarrow> uInt8 list \<Rightarrow> long \<Rightarrow> long \<times> uInt8 list" where
  "ReadBigEndian iByte bytes [] val = (val, [])"
| "ReadBigEndian iByte bytes (b # rawData) val =
     (if iByte < bytes
      then ReadBigEndian (Suc iByte) bytes rawData (push_bit 8 val + ucast b)
      else (val, b # rawData))"

text \<open>
  The sign extension of the unpacked decoder: \<^verbatim>\<open>signmask = 1 << (size-1)\<close>,
  \<^verbatim>\<open>extendmask = 0xFFFFFFFF - (1 << (32-size)) + 1\<close> (lines 285 and 286) and
  \<^verbatim>\<open>if( chan->signedNumber && size<32 && val&signmask ) val |= extendmask;\<close>
  (lines 299 and 300). For a width of 0 or of more than 32 the amounts of the
  two shifts are not below 32; the value returned does not depend on the masks
  there, because the test \<^verbatim>\<open>size<32\<close> fails or, at width 0, no byte is read and
  \<^verbatim>\<open>val\<close> is 0.
\<close>

definition ExtendSignUnpacked :: "ChannelInfo \<Rightarrow> long \<Rightarrow> long" where
  "ExtendSignUnpacked chan val =
     (let sz = rawSampleSizeInBits chan;
          signmask = (push_bit (unat (sz - 1)) 1 :: uInt32);
          extendmask = (0xFFFFFFFF - push_bit (unat (32 - sz)) 1 + 1 :: uInt32)
      in if signedNumber chan \<and> sz < 32 \<and> val AND signmask \<noteq> 0
         then val OR extendmask else val)"

text \<open>The body of the channel loop up to the sign extension (lines 283 to 300).\<close>

definition UnpackedSample :: "ChannelInfo \<Rightarrow> uInt8 list \<Rightarrow> fault + long \<times> uInt8 list" where
  "UnpackedSample chan rawData =
     (let bytes = rawSampleSizeInBits chan div 8
      in case (if compressionByteOrder chan = LittleEndian
               then ReadLittleEndian 0 (unat bytes) rawData 0
               else Inr (ReadBigEndian 0 (unat bytes) rawData 0)) of
           Inl f \<Rightarrow> Inl f
         | Inr (val, rest) \<Rightarrow> Inr (ExtendSignUnpacked chan val, rest))"

text \<open>
  The channel loop \<^verbatim>\<open>for(iChan=0;iChan<info->numberOfChannels;++iChan,chan=chan->next)\<close>:
  the first argument counts the channels still to do, the second is \<^verbatim>\<open>chan\<close>.
  \<open>None\<close> is \<^verbatim>\<open>goto Error\<close> on \<^verbatim>\<open>chan==NULL\<close>. In this loop and the two around it
  \<open>Inl\<close> of a fault is the undefined shift, and \<open>Inr\<close> carries what the loop
  yields otherwise.
\<close>

fun UnpackedRow ::
  "(ChannelInfo \<Rightarrow> long \<Rightarrow> 'a) \<Rightarrow> nat \<Rightarrow> ChannelInfo list \<Rightarrow> uInt8 list \<Rightarrow> 'a list
     \<Rightarrow> fault + ('a list \<times> uInt8 list) option" where
  "UnpackedRow scale 0 chain rawData row = Inr (Some (row, rawData))"
| "UnpackedRow scale (Suc n) [] rawData row = Inr None"
| "UnpackedRow scale (Suc n) (chan # chain) rawData row =
     (case UnpackedSample chan rawData of
        Inl f \<Rightarrow> Inl f
      | Inr (val, rest) \<Rightarrow> UnpackedRow scale n chain rest (row @ [scale chan val]))"

text \<open>
  The sample loop \<^verbatim>\<open>for(iSamp=0;iSamp<info->readBlockSize;++iSamp)\<close>; the second
  argument counts the samples still to do. Where there is no fault, \<open>Inl\<close> is
  \<^verbatim>\<open>goto Error\<close> and carries the rows counted by \<^verbatim>\<open>numSamples\<close>.
\<close>

fun UnpackedBlock ::
  "(ChannelInfo \<Rightarrow> long \<Rightarrow> 'a) \<Rightarrow> DataFileInfo \<Rightarrow> nat \<Rightarrow> uInt8 list \<Rightarrow> 'a list list
     \<Rightarrow> fault + ('a list list + ('a list list \<times> uInt8 list))" where
  "UnpackedBlock scale info 0 rawData rows = Inr (Inr (rows, rawData))"
| "UnpackedBlock scale info (Suc n) rawData rows =
     (case UnpackedRow scale (unat (numberOfChannels info)) (channelInfoChain info) rawData [] of
        Inl f \<Rightarrow> Inl f
      | Inr None \<Rightarrow> Inr (Inl rows)
      | Inr (Some (row, rest)) \<Rightarrow> UnpackedBlock scale info n rest (rows @ [row]))"

text \<open>
  The block loop \<^verbatim>\<open>while( numBytes )\<close>. Nothing in the source bounds the number
  of its iterations, so the loop is a partial function: \<open>None\<close> means that it
  does not return. \<open>Some (Inr rows)\<close> is the return of the function with the rows
  decoded, \<open>Some (Inl WideShift)\<close> a run that has reached the undefined shift.
\<close>

partial_function (option) UnpackedLoop ::
  "(ChannelInfo \<Rightarrow> long \<Rightarrow> 'a) \<Rightarrow> DataFileInfo \<Rightarrow> uInt8 list \<Rightarrow> 'a list list
     \<Rightarrow> (fault + 'a list list) option" where
  "UnpackedLoop scale info rawData rows =
     (if rawData = [] then Some (Inr rows)
      else case UnpackedBlock scale info (unat (readBlockSize info)) rawData rows of
             Inl f \<Rightarrow> Some (Inl f)
           | Inr (Inl rows') \<Rightarrow> Some (Inr rows')
           | Inr (Inr (rows', rest)) \<Rightarrow> UnpackedLoop scale info rest rows')"

text \<open>The two cases of the loop test, for evaluation.\<close>

lemma UnpackedLoop_code [code]:
  "UnpackedLoop scale info [] rows = Some (Inr rows)"
  "UnpackedLoop scale info (b # rawData) rows =
     (case UnpackedBlock scale info (unat (readBlockSize info)) (b # rawData) rows of
        Inl f \<Rightarrow> Some (Inl f)
      | Inr (Inl rows') \<Rightarrow> Some (Inr rows')
      | Inr (Inr (rows', rest)) \<Rightarrow> UnpackedLoop scale info rest rows')"
  by (simp_all add: UnpackedLoop.simps)

definition DecodeDataWithoutPacking_with ::
  "(ChannelInfo \<Rightarrow> long \<Rightarrow> 'a) \<Rightarrow> DataFileInfo \<Rightarrow> uInt8 list
     \<Rightarrow> (fault + 'a list list) option" where
  "DecodeDataWithoutPacking_with scale info rawData = UnpackedLoop scale info rawData []"

definition DecodeDataWithoutPacking ::
  "DataFileInfo \<Rightarrow> uInt8 list \<Rightarrow> (fault + real list list) option" where
  "DecodeDataWithoutPacking = DecodeDataWithoutPacking_with Scale"

subsection \<open>\<^verbatim>\<open>DecodeDataWithPacking\<close>\<close>

text \<open>
  The bit cursor of a block: the current byte \<^verbatim>\<open>ch\<close>, the position \<^verbatim>\<open>bitPos\<close> in
  it, the number \<^verbatim>\<open>byteCount\<close> of bytes of the block taken so far, and the bytes
  not yet taken.
\<close>

record BitCursor =
  ch :: uInt32
  bitPos :: nat
  byteCount :: uInt32
  unread :: "uInt8 list"

datatype stop = EndOfData | NegativeShift

text \<open>
  The bit loop \<^verbatim>\<open>while( bitCount<size )\<close> (lines 345 to 364); the second argument
  is \<^verbatim>\<open>size - bitCount\<close>, the first \<^verbatim>\<open>info->readBlockSizeInBytes\<close>. \<open>Inl EndOfData\<close>
  is the \<^verbatim>\<open>goto Error\<close> of line 357. With \<^verbatim>\<open>bitPos\<close> at 8 or more the shift
  amount \<^verbatim>\<open>8-bitPos-1\<close> is negative: \<open>Inl NegativeShift\<close>.
\<close>

fun ExtractBits :: "uInt32 \<Rightarrow> nat \<Rightarrow> BitCursor \<Rightarrow> long \<Rightarrow> stop + (long \<times> BitCursor)" where
  "ExtractBits blockBytes 0 cur val = Inr (val, cur)"
| "ExtractBits blockBytes (Suc n) cur val =
     (if 8 \<le> bitPos cur then Inl NegativeShift
      else
        let val' = push_bit 1 val + (drop_bit (8 - bitPos cur - 1) (ch cur) AND 1);
            bitPos' = bitPos cur + 1
        in if bitPos' = 8 \<and> byteCount cur < blockBytes
           then (case unread cur of
                   [] \<Rightarrow> Inl EndOfData
                 | b # bs \<Rightarrow>
                     ExtractBits blockBytes n
                       \<lparr>ch = ucast b, bitPos = 0, byteCount = byteCount cur + 1, unread = bs\<rparr> val')
           else ExtractBits blockBytes n (cur\<lparr>bitPos := bitPos'\<rparr>) val')"

text \<open>
  What the channel loop does with the extracted bits (lines 338 to 342 and 366
  to 371): the shift by \<^verbatim>\<open>lsb\<close> and the sign extension at \<^verbatim>\<open>realsize\<close>.
\<close>

definition rawWidth_of :: "ChannelInfo \<Rightarrow> uInt32" where
  "rawWidth_of chan =
     (if rawSampleJustification chan = DAQmx_Val_LeftJustified
      then rawSampleSizeInBits chan else rawSampleResolution chan)"

definition lsb_of :: "ChannelInfo \<Rightarrow> uInt32" where
  "lsb_of chan = rawWidth_of chan - compressedSampleSizeInBits chan"

definition Reconstruct :: "ChannelInfo \<Rightarrow> long \<Rightarrow> long" where
  "Reconstruct chan val =
     (let sz = compressedSampleSizeInBits chan;
          lsb = lsb_of chan;
          realsize = sz + lsb;
          signmask = (push_bit (unat (realsize - 1)) 1 :: uInt32);
          extendmask = (0xFFFFFFFF - push_bit (unat realsize) 1 + 1 :: uInt32);
          val' = push_bit (unat lsb) val
      in if signedNumber chan \<and> realsize < 32 \<and> val' AND signmask \<noteq> 0
         then val' OR extendmask else val')"

definition PackedSample :: "uInt32 \<Rightarrow> ChannelInfo \<Rightarrow> BitCursor \<Rightarrow> stop + (long \<times> BitCursor)" where
  "PackedSample blockBytes chan cur =
     (case ExtractBits blockBytes (unat (compressedSampleSizeInBits chan)) cur 0 of
        Inl e \<Rightarrow> Inl e
      | Inr (val, cur') \<Rightarrow> Inr (Reconstruct chan val, cur'))"

fun PackedRow ::
  "(ChannelInfo \<Rightarrow> long \<Rightarrow> 'a) \<Rightarrow> uInt32 \<Rightarrow> nat \<Rightarrow> ChannelInfo list \<Rightarrow> BitCursor \<Rightarrow> 'a list
     \<Rightarrow> stop + ('a list \<times> BitCursor)" where
  "PackedRow scale blockBytes 0 chain cur row = Inr (row, cur)"
| "PackedRow scale blockBytes (Suc n) [] cur row = Inl EndOfData"
| "PackedRow scale blockBytes (Suc n) (chan # chain) cur row =
     (case PackedSample blockBytes chan cur of
        Inl e \<Rightarrow> Inl e
      | Inr (val, cur') \<Rightarrow> PackedRow scale blockBytes n chain cur' (row @ [scale chan val]))"

fun PackedBlock ::
  "(ChannelInfo \<Rightarrow> long \<Rightarrow> 'a) \<Rightarrow> DataFileInfo \<Rightarrow> nat \<Rightarrow> BitCursor \<Rightarrow> 'a list list
     \<Rightarrow> (stop \<times> 'a list list) + ('a list list \<times> BitCursor)" where
  "PackedBlock scale info 0 cur rows = Inr (rows, cur)"
| "PackedBlock scale info (Suc n) cur rows =
     (case PackedRow scale (readBlockSizeInBytes info) (unat (numberOfChannels info))
             (channelInfoChain info) cur [] of
        Inl e \<Rightarrow> Inl (e, rows)
      | Inr (row, cur') \<Rightarrow> PackedBlock scale info n cur' (rows @ [row]))"

text \<open>
  The block loop \<^verbatim>\<open>while( numBytes )\<close> of the packed decoder takes one byte at the
  start of every block, so it terminates; the bytes left never grow inside a
  block.
\<close>

lemma ExtractBits_length:
  "ExtractBits B n cur val = Inr (val', cur') \<Longrightarrow> length (unread cur') \<le> length (unread cur)"
proof (induction n arbitrary: cur val)
  case 0
  then show ?case by simp
next
  case (Suc n)
  show ?case
  proof (cases "unread cur")
    case Nil
    with Suc.prems Suc.IH [of "cur\<lparr>bitPos := bitPos cur + 1\<rparr>"] show ?thesis
      by (auto simp: Let_def split: if_splits)
  next
    case (Cons b bs)
    with Suc.prems Suc.IH [of "cur\<lparr>bitPos := bitPos cur + 1\<rparr>"]
      Suc.IH [of "\<lparr>ch = ucast b, bitPos = 0, byteCount = byteCount cur + 1, unread = bs\<rparr>"]
    show ?thesis
      by (fastforce simp: Let_def split: if_splits)
  qed
qed

lemma PackedSample_length:
  "PackedSample B chan cur = Inr (val, cur') \<Longrightarrow> length (unread cur') \<le> length (unread cur)"
  by (auto simp: PackedSample_def split: sum.splits dest: ExtractBits_length)

lemma PackedRow_length:
  "PackedRow scale B n chain cur row = Inr (row', cur') \<Longrightarrow> length (unread cur') \<le> length (unread cur)"
proof (induction scale B n chain cur row rule: PackedRow.induct)
  case (3 scale B n chan chain cur row)
  from "3.prems" obtain val cur1 where s: "PackedSample B chan cur = Inr (val, cur1)"
    and r: "PackedRow scale B n chain cur1 (row @ [scale chan val]) = Inr (row', cur')"
    by (auto split: sum.splits)
  from "3.IH" [OF s refl r] PackedSample_length [OF s] show ?case by simp
qed simp_all

lemma PackedBlock_length:
  "PackedBlock scale info n cur rows = Inr (rows', cur') \<Longrightarrow> length (unread cur') \<le> length (unread cur)"
proof (induction n arbitrary: cur rows)
  case 0
  then show ?case by simp
next
  case (Suc n)
  from Suc.prems obtain row cur1 where
    r: "PackedRow scale (readBlockSizeInBytes info) (unat (numberOfChannels info))
          (channelInfoChain info) cur [] = Inr (row, cur1)"
    and b: "PackedBlock scale info n cur1 (rows @ [row]) = Inr (rows', cur')"
    by (auto split: sum.splits)
  from Suc.IH [OF b] PackedRow_length [OF r] show ?case by simp
qed

text \<open>
  The block loop (lines 320 to 379): \<^verbatim>\<open>ch=*rawData++\<close>, \<^verbatim>\<open>byteCount=1\<close>, \<^verbatim>\<open>bitPos=0\<close>,
  then the samples of the block. \<^verbatim>\<open>goto Error\<close> returns the rows counted so far.
\<close>

function PackedLoop ::
  "(ChannelInfo \<Rightarrow> long \<Rightarrow> 'a) \<Rightarrow> DataFileInfo \<Rightarrow> uInt8 list \<Rightarrow> 'a list list
     \<Rightarrow> stop + 'a list list" where
  "PackedLoop scale info [] rows = Inr rows"
| "PackedLoop scale info (b # rawData) rows =
     (case PackedBlock scale info (unat (readBlockSize info))
             \<lparr>ch = ucast b, bitPos = 0, byteCount = 1, unread = rawData\<rparr> rows of
        Inl (EndOfData, rows') \<Rightarrow> Inr rows'
      | Inl (NegativeShift, rows') \<Rightarrow> Inl NegativeShift
      | Inr (rows', cur') \<Rightarrow> PackedLoop scale info (unread cur') rows')"
  by pat_completeness auto
termination
  by (relation "measure (\<lambda>(scale, info, rawData, rows). length rawData)")
    (auto dest!: PackedBlock_length simp: less_Suc_eq_le)

definition DecodeDataWithPacking_with ::
  "(ChannelInfo \<Rightarrow> long \<Rightarrow> 'a) \<Rightarrow> DataFileInfo \<Rightarrow> uInt8 list \<Rightarrow> stop + 'a list list" where
  "DecodeDataWithPacking_with scale info rawData = PackedLoop scale info rawData []"

definition DecodeDataWithPacking :: "DataFileInfo \<Rightarrow> uInt8 list \<Rightarrow> stop + real list list" where
  "DecodeDataWithPacking = DecodeDataWithPacking_with Scale"

subsection \<open>\<^verbatim>\<open>ReadScaleAndPlotDataFileData\<close>\<close>

text \<open>
  The choice of the decoder (lines 124 to 132) looks at the first channel of
  the chain only.
\<close>

datatype DecodePath = WithoutPacking | WithPacking

definition SelectDecoder :: "ChannelInfo \<Rightarrow> DecodePath" where
  "SelectDecoder chan =
     (if compressionType chan = DAQmx_Val_None \<or>
         (compressionByteOrder chan = LittleEndian \<and> compressedSampleSizeInBits chan mod 8 = 0)
      then WithoutPacking else WithPacking)"

text \<open>
  What a run of the decoding step can do: return, run into undefined behaviour
  (a \<^verbatim>\<open>NULL\<close> chain dereferenced, a negative shift, a shift by 32 or more in the
  little-endian byte loop), or not return.
\<close>

datatype 'a run = Returns 'a | Undefined | Diverges

definition DecodeData :: "DataFileInfo \<Rightarrow> uInt8 list \<Rightarrow> real list list run" where
  "DecodeData info rawData =
     (case channelInfoChain info of
        [] \<Rightarrow> Undefined
      | chan # _ \<Rightarrow>
          (case SelectDecoder chan of
             WithoutPacking \<Rightarrow>
               (case DecodeDataWithoutPacking info rawData of
                  None \<Rightarrow> Diverges
                | Some (Inl f) \<Rightarrow> Undefined
                | Some (Inr rows) \<Rightarrow> Returns rows)
           | WithPacking \<Rightarrow>
               (case DecodeDataWithPacking info rawData of
                  Inl e \<Rightarrow> Undefined | Inr rows \<Rightarrow> Returns rows)))"

text \<open>
  \<^verbatim>\<open>ReadScaleAndPlotDataFileData\<close> given what \<^verbatim>\<open>ParseDataFileHeader\<close> and
  \<^verbatim>\<open>ReadDataFileData\<close> returned (\<open>None\<close> is \<^verbatim>\<open>NULL\<close>). Its result \<^verbatim>\<open>numSamples>0\<close> is
  the only report of success or failure the program has: on 0 \<^verbatim>\<open>main\<close> prints
  its error message.
\<close>

definition ReadScaleAndPlotDataFileData ::
  "DataFileInfo option \<Rightarrow> uInt8 list option \<Rightarrow> bool run" where
  "ReadScaleAndPlotDataFileData parsed bytes =
     (case (parsed, bytes) of
        (Some info, Some rawData) \<Rightarrow>
          (case DecodeData info rawData of
             Returns rows \<Rightarrow> Returns (0 < length rows)
           | Undefined \<Rightarrow> Undefined
           | Diverges \<Rightarrow> Diverges)
      | _ \<Rightarrow> Returns False)"

section \<open>The unpacked decoder\<close>

text \<open>
  The values the specification gives for the bytes of one sample: the sum of
  \<open>byte[i] << (8*i)\<close> for little endian, the fold of \<open>(value << 8) | byte[i]\<close>
  for big endian, both in a 32-bit word.
\<close>

definition le_value :: "uInt8 list \<Rightarrow> long" where
  "le_value bs = (\<Sum>i<length bs. push_bit (8 * i) (ucast (bs ! i)))"

definition be_value :: "uInt8 list \<Rightarrow> long" where
  "be_value bs = foldl (\<lambda>v b. push_bit 8 v OR ucast b) 0 bs"

definition c9_chan :: ChannelInfo where
  "c9_chan = \<lparr>name = ''Dev1/ai0'', rawSampleResolution = 16, rawSampleSizeInBits = 16,
     rawSampleJustification = DAQmx_Val_RightJustified, signedNumber = True,
     compressionType = DAQmx_Val_None, compressedSampleSizeInBits = 16,
     compressionByteOrder = LittleEndian, polynomialScalingCoeffChain = [0, 1]\<rparr>"

definition c9_info :: DataFileInfo where
  "c9_info = \<lparr>version = ''1.0.0'', headerSize = 400, taskName = ''_unnamedTask<0>'',
     numberOfChannels = 2, readBlockSize = 1, readBlockSizeInBytes = 4,
     channelInfoChain = [c9_chan, c9_chan\<lparr>name := ''Dev1/ai1''\<rparr>]\<rparr>"

definition c2_chan :: ChannelInfo where
  "c2_chan = \<lparr>name = ''Dev1/ai0'', rawSampleResolution = 8, rawSampleSizeInBits = 8,
     rawSampleJustification = DAQmx_Val_RightJustified, signedNumber = True,
     compressionType = DAQmx_Val_None, compressedSampleSizeInBits = 8,
     compressionByteOrder = LittleEndian, polynomialScalingCoeffChain = [0, 1]\<rparr>"

definition c2_info :: DataFileInfo where
  "c2_info = \<lparr>version = ''1.0.0'', headerSize = 400, taskName = ''_unnamedTask<0>'',
     numberOfChannels = 1, readBlockSize = 1, readBlockSizeInBytes = 1,
     channelInfoChain = [c2_chan]\<rparr>"

definition c6_info :: DataFileInfo where
  "c6_info = \<lparr>version = ''1.0.0'', headerSize = 700, taskName = ''_unnamedTask<0>'',
     numberOfChannels = 2, readBlockSize = 1, readBlockSizeInBytes = 3,
     channelInfoChain =
       [c9_chan,
        c2_chan\<lparr>name := ''Dev2/ai0'', compressionType := DAQmx_Val_LossyLSBRemoval,
          compressedSampleSizeInBits := 6\<rparr>]\<rparr>"

definition c10_info :: DataFileInfo where
  "c10_info = c9_info\<lparr>readBlockSize := 0\<rparr>"

definition c10_narrow :: DataFileInfo where
  "c10_narrow = c2_info\<lparr>channelInfoChain := [c2_chan\<lparr>rawSampleSizeInBits := 4\<rparr>]\<rparr>"

text \<open>A little-endian channel of 40 bits, and a manifest with this channel alone.\<close>

definition c9_wide :: ChannelInfo where
  "c9_wide = c9_chan\<lparr>rawSampleResolution := 40, rawSampleSizeInBits := 40,
     compressedSampleSizeInBits := 40\<rparr>"

definition c10_wide :: DataFileInfo where
  "c10_wide = c2_info\<lparr>readBlockSizeInBytes := 5, channelInfoChain := [c9_wide]\<rparr>"

subsection \<open>Bytes of a sample\<close>

lemma ReadLittleEndian_eq:
  "n \<le> 4 \<Longrightarrow> ReadLittleEndian i n raw val =
     Inr (val + (\<Sum>j<min (n - i) (length raw). push_bit (8 * (i + j)) (ucast (raw ! j))),
          drop (n - i) raw)"
proof (induction i n raw val rule: ReadLittleEndian.induct)
  case (1 iByte bytes val)
  show ?case by simp
next
  case (2 iByte bytes b rawData val)
  show ?case
  proof (cases "iByte < bytes")
    case True
    with "2.prems" have near: "\<not> 32 \<le> iByte * 8" by simp
    define k where "k = min (bytes - Suc iByte) (length rawData)"
    have m: "min (bytes - iByte) (length (b # rawData)) = Suc k"
      using True by (auto simp: k_def)
    have d: "drop (bytes - iByte) (b # rawData) = drop (bytes - Suc iByte) rawData"
      using True by (simp add: drop_Cons')
    have s: "(\<Sum>j<Suc k. push_bit (8 * (iByte + j)) (ucast ((b # rawData) ! j)) :: long) =
        push_bit (iByte * 8) (ucast b) +
        (\<Sum>j<k. push_bit (8 * (Suc iByte + j)) (ucast (rawData ! j)))"
      by (simp add: sum.lessThan_Suc_shift mult.commute add.left_commute del: sum.lessThan_Suc)
    show ?thesis
      using True near "2.IH" [OF True near "2.prems"] unfolding m d s k_def [symmetric]
      by (simp add: add.assoc)
  next
    case False
    then show ?thesis by simp
  qed
qed

lemma ReadLittleEndian_le_value:
  "n \<le> 4 \<Longrightarrow> ReadLittleEndian 0 n raw 0 = Inr (le_value (take n raw), drop n raw)"
  by (simp add: ReadLittleEndian_eq le_value_def min.commute)

text \<open>Whatever the width, the bytes of a sample that was read are gone from the buffer.\<close>

lemma ReadLittleEndian_rest:
  "ReadLittleEndian i n raw val = Inr (v, rest) \<Longrightarrow> rest = drop (n - i) raw"
proof (induction i n raw val rule: ReadLittleEndian.induct)
  case (1 iByte bytes val)
  then show ?case by simp
next
  case (2 iByte bytes b rawData val)
  show ?case
  proof (cases "iByte < bytes")
    case True
    with "2.prems" have near: "\<not> 32 \<le> iByte * 8" by (auto split: if_splits)
    from "2.prems" True near
    have "ReadLittleEndian (Suc iByte) bytes rawData (val + push_bit (iByte * 8) (ucast b))
        = Inr (v, rest)" by simp
    from "2.IH" [OF True near this] True show ?thesis
      by (simp add: drop_Cons')
  next
    case False
    with "2.prems" show ?thesis by simp
  qed
qed

text \<open>A sample of five bytes or more, all of them there, reaches the undefined shift.\<close>

lemma ReadLittleEndian_wide:
  "i \<le> 4 \<Longrightarrow> 4 < n \<Longrightarrow> 4 - i < length raw \<Longrightarrow> ReadLittleEndian i n raw val = Inl WideShift"
proof (induction raw arbitrary: i val)
  case Nil
  then show ?case by simp
next
  case (Cons b raw)
  show ?case
  proof (cases "i = 4")
    case True
    with Cons.prems show ?thesis by simp
  next
    case False
    with Cons.prems have "Suc i \<le> 4" "4 - Suc i < length raw" by simp_all
    from Cons.IH [OF this(1) Cons.prems(2) this(2)] Cons.prems False show ?thesis by simp
  qed
qed

lemma shift_or_byte: "push_bit 8 (v :: long) + ucast (b :: uInt8) = push_bit 8 v OR ucast b"
  by (rule disjunctive_add) (auto simp: bit_push_bit_iff bit_ucast_iff dest: bit_imp_le_length)

lemma ReadBigEndian_eq:
  "ReadBigEndian i n raw val =
     (foldl (\<lambda>v b. push_bit 8 v OR ucast b) val (take (n - i) raw), drop (n - i) raw)"
proof (induction i n raw val rule: ReadBigEndian.induct)
  case (1 iByte bytes val)
  show ?case by simp
next
  case (2 iByte bytes b rawData val)
  show ?case
  proof (cases "iByte < bytes")
    case True
    then obtain k where k: "bytes - iByte = Suc k" "bytes - Suc iByte = k"
      by (metis Suc_diff_Suc)
    show ?thesis
      using True "2.IH" by (simp add: k shift_or_byte)
  next
    case False
    then show ?thesis by simp
  qed
qed

lemma ReadBigEndian_be_value:
  "ReadBigEndian 0 n raw 0 = (be_value (take n raw), drop n raw)"
  by (simp add: ReadBigEndian_eq be_value_def)

lemma small_channel_bytes:
  "rawSampleSizeInBits chan < 40 \<Longrightarrow> unat (rawSampleSizeInBits chan div 8) \<le> 4"
  by (simp add: unat_div word_less_nat_alt)

lemma large_channel_bytes:
  "40 \<le> rawSampleSizeInBits chan \<Longrightarrow> 4 < unat (rawSampleSizeInBits chan div 8)"
  by (simp add: unat_div word_le_nat_alt)

lemma UnpackedSample_eq:
  assumes "compressionByteOrder chan = LittleEndian \<longrightarrow> rawSampleSizeInBits chan < 40"
  shows "UnpackedSample chan raw =
     Inr (ExtendSignUnpacked chan
        ((if compressionByteOrder chan = LittleEndian then le_value else be_value)
           (take (unat (rawSampleSizeInBits chan div 8)) raw)),
      drop (unat (rawSampleSizeInBits chan div 8)) raw)"
  using assms
  by (simp add: UnpackedSample_def Let_def ReadLittleEndian_le_value ReadBigEndian_be_value
      small_channel_bytes)

lemma UnpackedSample_wide:
  assumes "compressionByteOrder chan = LittleEndian" and "40 \<le> rawSampleSizeInBits chan"
    and "4 < length raw"
  shows "UnpackedSample chan raw = Inl WideShift"
  using assms ReadLittleEndian_wide [of 0 "unat (rawSampleSizeInBits chan div 8)" raw 0]
  by (simp add: UnpackedSample_def Let_def large_channel_bytes)

lemma UnpackedSample_rest:
  "UnpackedSample chan raw = Inr (val, rest) \<Longrightarrow> rest = drop (unat (rawSampleSizeInBits chan div 8)) raw"
  by (auto simp: UnpackedSample_def Let_def ReadBigEndian_be_value
      dest: ReadLittleEndian_rest split: if_splits sum.splits prod.splits)

lemma UnpackedRow_rest_le:
  "UnpackedRow scale n chain raw row = Inr (Some (row', rest)) \<Longrightarrow> length rest \<le> length raw"
proof (induction scale n chain raw row rule: UnpackedRow.induct)
  case (3 scale n chan chain rawData row)
  from "3.prems" obtain val r where s: "UnpackedSample chan rawData = Inr (val, r)"
    by (auto split: sum.splits)
  with "3.prems" have "UnpackedRow scale n chain r (row @ [scale chan val]) = Inr (Some (row', rest))"
    by simp
  from "3.IH" [OF s refl this] UnpackedSample_rest [OF s] show ?case by simp
qed simp_all

lemma UnpackedBlock_rest_le:
  "UnpackedBlock scale info n raw rows = Inr (Inr (rows', rest)) \<Longrightarrow> length rest \<le> length raw"
proof (induction n arbitrary: raw rows)
  case 0
  then show ?case by simp
next
  case (Suc n)
  from Suc.prems obtain row r where
    r: "UnpackedRow scale (unat (numberOfChannels info)) (channelInfoChain info) raw []
          = Inr (Some (row, r))"
    and b: "UnpackedBlock scale info n r (rows @ [row]) = Inr (Inr (rows', rest))"
    by (auto split: sum.splits option.splits)
  from Suc.IH [OF b] UnpackedRow_rest_le [OF r] show ?case by simp
qed

lemma wide_channel_bytes:
  "8 \<le> rawSampleSizeInBits chan \<Longrightarrow> 0 < unat (rawSampleSizeInBits chan div 8)"
  by (simp add: unat_div word_le_nat_alt div_greater_zero_iff)

lemma UnpackedRow_progress:
  assumes "UnpackedRow scale (Suc n) chain raw row = Inr (Some (row', rest))"
    and "\<forall>chan \<in> set chain. 8 \<le> rawSampleSizeInBits chan" and "raw \<noteq> []"
  shows "length rest < length raw"
proof (cases chain)
  case Nil
  with assms show ?thesis by simp
next
  case (Cons chan chain')
  from assms(1) Cons obtain val r where s: "UnpackedSample chan raw = Inr (val, r)"
    by (auto split: sum.splits)
  with assms Cons
  have u: "UnpackedRow scale n chain' r (row @ [scale chan val]) = Inr (Some (row', rest))"
    by simp
  from assms Cons have "0 < unat (rawSampleSizeInBits chan div 8)"
    by (simp add: wide_channel_bytes)
  with UnpackedSample_rest [OF s] \<open>raw \<noteq> []\<close> have "length r < length raw" by simp
  with UnpackedRow_rest_le [OF u] show ?thesis by simp
qed

lemma UnpackedBlock_progress:
  assumes "UnpackedBlock scale info (Suc n) raw rows = Inr (Inr (rows', rest))"
    and "numberOfChannels info \<noteq> 0"
    and "\<forall>chan \<in> set (channelInfoChain info). 8 \<le> rawSampleSizeInBits chan" and "raw \<noteq> []"
  shows "length rest < length raw"
proof -
  from assms(1) obtain row r where
    r: "UnpackedRow scale (unat (numberOfChannels info)) (channelInfoChain info) raw []
          = Inr (Some (row, r))"
    and b: "UnpackedBlock scale info n r (rows @ [row]) = Inr (Inr (rows', rest))"
    by (auto split: sum.splits option.splits)
  from assms(2) obtain k where "unat (numberOfChannels info) = Suc k"
    by (metis not0_implies_Suc unat_eq_zero)
  with r assms(3,4) have "length r < length raw"
    using UnpackedRow_progress by metis
  with UnpackedBlock_rest_le [OF b] show ?thesis by simp
qed

text \<open>Channels that cannot reach the undefined shift.\<close>

lemma UnpackedRow_no_fault:
  assumes "\<forall>chan \<in> set chain. compressionByteOrder chan = LittleEndian
             \<longrightarrow> rawSampleSizeInBits chan < 40"
  shows "UnpackedRow scale n chain raw row \<noteq> Inl f"
  using assms
proof (induction scale n chain raw row rule: UnpackedRow.induct)
  case (3 scale n chan chain rawData row)
  from "3.prems" have "compressionByteOrder chan = LittleEndian \<longrightarrow> rawSampleSizeInBits chan < 40"
    by simp
  note s = UnpackedSample_eq [OF this, of rawData]
  from "3.IH" [OF s refl] "3.prems" s show ?case by simp
qed simp_all

lemma UnpackedBlock_no_fault:
  assumes "\<forall>chan \<in> set (channelInfoChain info). compressionByteOrder chan = LittleEndian
             \<longrightarrow> rawSampleSizeInBits chan < 40"
  shows "UnpackedBlock scale info n raw rows \<noteq> Inl f"
proof (induction n arbitrary: raw rows)
  case 0
  show ?case by simp
next
  case (Suc n)
  have "UnpackedRow scale (unat (numberOfChannels info)) (channelInfoChain info) raw [] \<noteq> Inl f"
    by (rule UnpackedRow_no_fault [OF assms])
  with Suc show ?case
    by (auto split: sum.splits option.splits)
qed

text \<open>
  With a block size and a channel count of at least one and widths of at least
  8, every block takes bytes off a non-empty buffer, so the block loop ends; it
  ends with the rows when no little-endian channel has 40 bits or more.
\<close>

lemma UnpackedLoop_ends:
  assumes "readBlockSize info \<noteq> 0" and "numberOfChannels info \<noteq> 0"
    and "\<forall>chan \<in> set (channelInfoChain info). 8 \<le> rawSampleSizeInBits chan"
  shows "\<exists>result. UnpackedLoop scale info raw rows = Some result \<and>
     ((\<forall>chan \<in> set (channelInfoChain info). compressionByteOrder chan = LittleEndian
          \<longrightarrow> rawSampleSizeInBits chan < 40)
        \<longrightarrow> (\<exists>rows'. result = Inr rows'))"
proof (induction "length raw" arbitrary: raw rows rule: less_induct)
  case less
  show ?case
  proof (cases "raw = []")
    case True
    then show ?thesis by (simp add: UnpackedLoop.simps)
  next
    case False
    from assms(1) obtain n where n: "unat (readBlockSize info) = Suc n"
      by (metis not0_implies_Suc unat_eq_zero)
    show ?thesis
    proof (cases "UnpackedBlock scale info (Suc n) raw rows")
      case (Inl f)
      with False n have "UnpackedLoop scale info raw rows = Some (Inl f)"
        by (subst UnpackedLoop.simps) simp
      with Inl UnpackedBlock_no_fault [of info scale "Suc n" raw rows f] show ?thesis
        by auto
    next
      case (Inr e)
      show ?thesis
      proof (cases e)
        case (Inl rows')
        with Inr False n have "UnpackedLoop scale info raw rows = Some (Inr rows')"
          by (subst UnpackedLoop.simps) simp
        then show ?thesis by simp
      next
        case (Inr p)
        with \<open>UnpackedBlock scale info (Suc n) raw rows = Inr e\<close> obtain rows' r where
          p: "UnpackedBlock scale info (Suc n) raw rows = Inr (Inr (rows', r))"
          by (cases p) simp
        from UnpackedBlock_progress [OF p assms(2,3) False]
        have "length r < length raw" .
        from less [OF this, of rows'] False n p show ?thesis
          by (subst UnpackedLoop.simps) simp
      qed
    qed
  qed
qed

lemma UnpackedLoop_returns:
  assumes "readBlockSize info \<noteq> 0" and "numberOfChannels info \<noteq> 0"
    and "\<forall>chan \<in> set (channelInfoChain info). 8 \<le> rawSampleSizeInBits chan"
  shows "\<exists>result. UnpackedLoop scale info raw rows = Some result"
  using UnpackedLoop_ends [OF assms, of scale raw rows] by blast

lemma UnpackedLoop_returns_rows:
  assumes "readBlockSize info \<noteq> 0" and "numberOfChannels info \<noteq> 0"
    and "\<forall>chan \<in> set (channelInfoChain info). 8 \<le> rawSampleSizeInBits chan"
    and "\<forall>chan \<in> set (channelInfoChain info). compressionByteOrder chan = LittleEndian
          \<longrightarrow> rawSampleSizeInBits chan < 40"
  shows "\<exists>rows'. UnpackedLoop scale info raw rows = Some (Inr rows')"
  using UnpackedLoop_ends [OF assms(1-3), of scale raw rows] assms(4) by blast

lemma UnpackedLoop_stuck:
  assumes "raw \<noteq> []"
    and "\<And>rows. \<exists>rows'. UnpackedBlock scale info (unat (readBlockSize info)) raw rows
           = Inr (Inr (rows', raw))"
  shows "UnpackedLoop scale info raw rows = None"
proof (rule ccontr)
  let ?stuck = "\<lambda>scale info raw. raw \<noteq> [] \<and>
     (\<forall>rows. \<exists>rows'. UnpackedBlock scale info (unat (readBlockSize info)) raw rows
        = Inr (Inr (rows', raw)))"
  assume "UnpackedLoop scale info raw rows \<noteq> None"
  then obtain y where y: "UnpackedLoop scale info raw rows = Some y" by auto
  have "\<not> ?stuck scale info raw"
  proof (rule UnpackedLoop.raw_induct [where P = "\<lambda>scale info raw rows y. \<not> ?stuck scale info raw", OF _ y])
    fix loop :: "(ChannelInfo \<Rightarrow> long \<Rightarrow> 'a) \<Rightarrow> DataFileInfo \<Rightarrow> uInt8 list \<Rightarrow> 'a list list
      \<Rightarrow> (fault + 'a list list) option"
    fix scale info raw rows y
    assume IH: "\<And>scale info raw rows y. loop scale info raw rows = Some y \<Longrightarrow> \<not> ?stuck scale info raw"
      and step: "(if raw = [] then Some (Inr rows)
        else case UnpackedBlock scale info (unat (readBlockSize info)) raw rows of
             Inl f \<Rightarrow> Some (Inl f)
           | Inr (Inl rows') \<Rightarrow> Some (Inr rows')
           | Inr (Inr (rows', rest)) \<Rightarrow> loop scale info rest rows') = Some y"
    show "\<not> ?stuck scale info raw"
    proof
      assume st: "?stuck scale info raw"
      then obtain rows' where
        "UnpackedBlock scale info (unat (readBlockSize info)) raw rows = Inr (Inr (rows', raw))"
        by blast
      with step st have "loop scale info raw rows' = Some y" by simp
      from IH [OF this] st show False by blast
    qed
  qed
  with assms show False by blast
qed

lemma narrow_channel_bytes:
  "rawSampleSizeInBits chan < 8 \<Longrightarrow> unat (rawSampleSizeInBits chan div 8) = 0"
  by (simp add: unat_div word_less_nat_alt)

lemma UnpackedSample_narrow:
  assumes "rawSampleSizeInBits chan < 8"
  shows "\<exists>val. UnpackedSample chan raw = Inr (val, raw)"
proof -
  from assms have "rawSampleSizeInBits chan < 40"
    by (simp add: word_less_nat_alt)
  then have "compressionByteOrder chan = LittleEndian \<longrightarrow> rawSampleSizeInBits chan < 40"
    by simp
  from UnpackedSample_eq [OF this, of raw] assms show ?thesis
    by (simp add: narrow_channel_bytes)
qed

lemma UnpackedRow_narrow:
  assumes "\<forall>chan \<in> set chain. rawSampleSizeInBits chan < 8" and "n \<le> length chain"
  shows "\<exists>row'. UnpackedRow scale n chain raw row = Inr (Some (row', raw))"
  using assms
proof (induction scale n chain raw row rule: UnpackedRow.induct)
  case (3 scale n chan chain rawData row)
  from "3.prems" UnpackedSample_narrow [of chan rawData] obtain val where
    s: "UnpackedSample chan rawData = Inr (val, rawData)" by auto
  from "3.IH" [OF s refl] "3.prems" s show ?case by simp
qed simp_all

lemma UnpackedBlock_narrow:
  assumes "\<forall>chan \<in> set (channelInfoChain info). rawSampleSizeInBits chan < 8"
    and "unat (numberOfChannels info) \<le> length (channelInfoChain info)"
  shows "\<exists>rows'. UnpackedBlock scale info n raw rows = Inr (Inr (rows', raw))"
proof (induction n arbitrary: rows)
  case 0
  show ?case by simp
next
  case (Suc n)
  from UnpackedRow_narrow [OF assms] obtain row' where
    "UnpackedRow scale (unat (numberOfChannels info)) (channelInfoChain info) raw []
       = Inr (Some (row', raw))"
    by blast
  with Suc [of "rows @ [row']"] show ?case by simp
qed


subsection \<open>Claims about the unpacked decoder\<close>

text \<open>
  C9. In the unpacked path the decoder takes, for a channel of at most 32 bits,
  the first \<open>rawSampleSizeInBits div 8\<close> bytes of what is left of the buffer and
  accumulates them as the sum of \<open>byte[i] << (8*i)\<close> when the byte order is
  little endian and by \<open>value = (value << 8) | byte[i]\<close> when it is big endian
  (the sign extension of the source is applied to that value). A little-endian
  channel of 40 bits or more with five bytes left is outside this: its fifth
  byte is shifted by 32, which is undefined. For the file of the scenario, two
  16-bit little-endian channels with compression type None and coefficients 0
  and 1, the bytes 01 00 02 00 decode to one sample with channel 0 at 1 and
  channel 1 at 2.
\<close>

theorem UnpackedSample_accumulates:
  "(rawSampleSizeInBits chan \<le> 32 \<longrightarrow>
      UnpackedSample chan rawData =
        Inr (ExtendSignUnpacked chan
               ((if compressionByteOrder chan = LittleEndian then le_value else be_value)
                  (take (unat (rawSampleSizeInBits chan div 8)) rawData)),
             drop (unat (rawSampleSizeInBits chan div 8)) rawData))
   \<and> (compressionByteOrder chan = LittleEndian \<and> 40 \<le> rawSampleSizeInBits chan
        \<and> 4 < length rawData \<longrightarrow> UnpackedSample chan rawData = Inl WideShift)
   \<and> DecodeData c9_info [0x01, 0x00, 0x02, 0x00] = Returns [[1, 2]]"
proof (intro conjI impI)
  assume "rawSampleSizeInBits chan \<le> 32"
  then have "rawSampleSizeInBits chan < 40"
    by (simp add: word_le_nat_alt word_less_nat_alt)
  then have "compressionByteOrder chan = LittleEndian \<longrightarrow> rawSampleSizeInBits chan < 40"
    by simp
  then show "UnpackedSample chan rawData =
        Inr (ExtendSignUnpacked chan
               ((if compressionByteOrder chan = LittleEndian then le_value else be_value)
                  (take (unat (rawSampleSizeInBits chan div 8)) rawData)),
             drop (unat (rawSampleSizeInBits chan div 8)) rawData)"
    by (rule UnpackedSample_eq)
next
  assume "compressionByteOrder chan = LittleEndian \<and> 40 \<le> rawSampleSizeInBits chan
        \<and> 4 < length rawData"
  then show "UnpackedSample chan rawData = Inl WideShift"
    by (intro UnpackedSample_wide) simp_all
next
  show "DecodeData c9_info [0x01, 0x00, 0x02, 0x00] = Returns [[1, 2]]"
    by code_simp
qed

theorem UnpackedSample_accumulates_witness:
  "UnpackedSample c9_chan [0x01, 0x00, 0x02, 0x00] = Inr (1, [0x02, 0x00])
   \<and> UnpackedSample (c9_chan\<lparr>compressionByteOrder := BigEndian\<rparr>) [0x01, 0x00, 0x02, 0x00]
       = Inr (0x100, [0x02, 0x00])
   \<and> UnpackedSample c9_wide [0x01, 0x00, 0x00, 0x00, 0x02] = Inl WideShift"
proof -
  let ?raw = "[0x01, 0x00, 0x02, 0x00] :: uInt8 list"
  let ?big = "c9_chan\<lparr>compressionByteOrder := BigEndian\<rparr>"
  have little: "(ExtendSignUnpacked c9_chan
        ((if compressionByteOrder c9_chan = LittleEndian then le_value else be_value)
           (take (unat (rawSampleSizeInBits c9_chan div 8)) ?raw)),
      drop (unat (rawSampleSizeInBits c9_chan div 8)) ?raw) = (1, [0x02, 0x00])"
    by code_simp
  have big: "(ExtendSignUnpacked ?big
        ((if compressionByteOrder ?big = LittleEndian then le_value else be_value)
           (take (unat (rawSampleSizeInBits ?big div 8)) ?raw)),
      drop (unat (rawSampleSizeInBits ?big div 8)) ?raw) = (0x100, [0x02, 0x00])"
    by code_simp
  have h: "rawSampleSizeInBits c9_chan \<le> 32" "rawSampleSizeInBits ?big \<le> 32"
    "compressionByteOrder c9_wide = LittleEndian \<and> 40 \<le> rawSampleSizeInBits c9_wide
        \<and> 4 < length [0x01, 0x00, 0x00, 0x00, 0x02 :: uInt8]"
    by (simp_all add: c9_chan_def c9_wide_def)
  from UnpackedSample_accumulates [of c9_chan ?raw] UnpackedSample_accumulates [of ?big ?raw]
    UnpackedSample_accumulates [of c9_wide "[0x01, 0x00, 0x00, 0x00, 0x02]"] h
  show ?thesis unfolding little big by simp
qed

text \<open>
  C2 describes the sign extension of the unpacked decoder as the one of the
  packed decoder. The source computes the mask from \<^verbatim>\<open>1 << (32-size)\<close>, not from
  \<^verbatim>\<open>1 << size\<close>: for a signed channel of width 8 the byte FF becomes the word
  FF0000FF, which is -16776961 and not -1.
\<close>

theorem UnpackedSample_width8_not_minus_one:
  "signedNumber c2_chan \<and> rawSampleSizeInBits c2_chan = 8
   \<and> DecodeDataWithoutPacking_with (\<lambda>chan val. sint val) c2_info [0xFF]
       = Some (Inr [[- 16776961]])
   \<and> DecodeDataWithoutPacking c2_info [0xFF] = Some (Inr [[- 16776961]])"
  by code_simp

text \<open>
  C6 asks for a file with mixed sample formats to be rejected. The decoder has
  no such test: a manifest whose first channel is uncompressed with 16 bits and
  whose second channel uses lossy compression with a raw width of 8 and a
  stored width of 6 is decoded by the unpacked path, and success is reported.
\<close>

theorem mixed_formats_are_decoded:
  "map compressionType (channelInfoChain c6_info) = [DAQmx_Val_None, DAQmx_Val_LossyLSBRemoval]
   \<and> map rawSampleSizeInBits (channelInfoChain c6_info) = [16, 8]
   \<and> map compressedSampleSizeInBits (channelInfoChain c6_info) = [16, 6]
   \<and> DecodeData c6_info [0x01, 0x00, 0x02] = Returns [[1, 2]]
   \<and> ReadScaleAndPlotDataFileData (Some c6_info) (Some [0x01, 0x00, 0x02]) = Returns True"
  by code_simp

text \<open>
  C10, as stated, fails: with \<^verbatim>\<open>ReadBlockSize=0\<close>, which the parser accepts, the
  sample loop has no iteration, no byte is consumed, and the block loop does
  not return on a non-empty buffer although the only width is 16.
\<close>

theorem zero_block_size_counterexample:
  "map rawSampleSizeInBits (channelInfoChain c10_info) = [16, 16]
   \<and> DecodeDataWithoutPacking c10_info [0x01] = None"
proof
  show "map rawSampleSizeInBits (channelInfoChain c10_info) = [16, 16]"
    by (simp add: c10_info_def c9_info_def c9_chan_def)
  have "UnpackedLoop Scale c10_info [0x01] [] = None"
    by (rule UnpackedLoop_stuck) (simp_all add: c10_info_def)
  then show "DecodeDataWithoutPacking c10_info [0x01] = None"
    by (simp add: DecodeDataWithoutPacking_def DecodeDataWithoutPacking_with_def)
qed

text \<open>
  C10, amended. The loops of the unpacked decoder end on every buffer when
  \<^verbatim>\<open>readBlockSize\<close> and \<^verbatim>\<open>numberOfChannels\<close> are at least 1 and every channel has
  \<^verbatim>\<open>rawSampleSizeInBits\<close> of at least 8; the decoder then returns its rows
  unless a little-endian channel of 40 bits or more takes it to the undefined
  shift of its fifth byte. When every channel has a width below 8 (and the
  chain has \<^verbatim>\<open>numberOfChannels\<close> entries or more), no byte is ever consumed and
  the decoder does not return on a non-empty buffer.
\<close>

theorem DecodeDataWithoutPacking_returns:
  "(readBlockSize info \<noteq> 0 \<and> numberOfChannels info \<noteq> 0 \<and>
    (\<forall>chan \<in> set (channelInfoChain info). 8 \<le> rawSampleSizeInBits chan)
      \<longrightarrow> (\<exists>result. DecodeDataWithoutPacking_with scale info rawData = Some result))
   \<and> (readBlockSize info \<noteq> 0 \<and> numberOfChannels info \<noteq> 0 \<and>
    (\<forall>chan \<in> set (channelInfoChain info). 8 \<le> rawSampleSizeInBits chan) \<and>
    (\<forall>chan \<in> set (channelInfoChain info). compressionByteOrder chan = LittleEndian
        \<longrightarrow> rawSampleSizeInBits chan < 40)
      \<longrightarrow> (\<exists>rows. DecodeDataWithoutPacking_with scale info rawData = Some (Inr rows)))
   \<and> (rawData \<noteq> [] \<and> unat (numberOfChannels info) \<le> length (channelInfoChain info) \<and>
    (\<forall>chan \<in> set (channelInfoChain info). rawSampleSizeInBits chan < 8)
      \<longrightarrow> DecodeDataWithoutPacking_with scale info rawData = None)"
proof (intro conjI impI)
  assume "readBlockSize info \<noteq> 0 \<and> numberOfChannels info \<noteq> 0 \<and>
    (\<forall>chan \<in> set (channelInfoChain info). 8 \<le> rawSampleSizeInBits chan)"
  then show "\<exists>result. DecodeDataWithoutPacking_with scale info rawData = Some result"
    unfolding DecodeDataWithoutPacking_with_def by (intro UnpackedLoop_returns) simp_all
next
  assume "readBlockSize info \<noteq> 0 \<and> numberOfChannels info \<noteq> 0 \<and>
    (\<forall>chan \<in> set (channelInfoChain info). 8 \<le> rawSampleSizeInBits chan) \<and>
    (\<forall>chan \<in> set (channelInfoChain info). compressionByteOrder chan = LittleEndian
        \<longrightarrow> rawSampleSizeInBits chan < 40)"
  then show "\<exists>rows. DecodeDataWithoutPacking_with scale info rawData = Some (Inr rows)"
    unfolding DecodeDataWithoutPacking_with_def by (intro UnpackedLoop_returns_rows) simp_all
next
  assume a: "rawData \<noteq> [] \<and> unat (numberOfChannels info) \<le> length (channelInfoChain info) \<and>
    (\<forall>chan \<in> set (channelInfoChain info). rawSampleSizeInBits chan < 8)"
  show "DecodeDataWithoutPacking_with scale info rawData = None"
    unfolding DecodeDataWithoutPacking_with_def
  proof (rule UnpackedLoop_stuck)
    show "rawData \<noteq> []" using a by simp
    show "\<exists>rows'. UnpackedBlock scale info (unat (readBlockSize info)) rawData rows
        = Inr (Inr (rows', rawData))" for rows
      using a by (intro UnpackedBlock_narrow) simp_all
  qed
qed

theorem DecodeDataWithoutPacking_returns_witness:
  "(\<exists>result. DecodeDataWithoutPacking_with Scale c9_info [0x01, 0x00, 0x02, 0x00] = Some result)
   \<and> (\<exists>rows. DecodeDataWithoutPacking_with Scale c9_info [0x01, 0x00, 0x02, 0x00]
         = Some (Inr rows))
   \<and> (\<exists>result. DecodeDataWithoutPacking_with Scale c10_wide [0x01, 0x00, 0x00, 0x00, 0x02]
         = Some result)
   \<and> DecodeDataWithoutPacking_with Scale c10_narrow [0x01] = None"
  using DecodeDataWithoutPacking_returns [of c9_info Scale "[0x01, 0x00, 0x02, 0x00]"]
    DecodeDataWithoutPacking_returns [of c10_wide Scale "[0x01, 0x00, 0x00, 0x00, 0x02]"]
    DecodeDataWithoutPacking_returns [of c10_narrow Scale "[0x01]"]
  by (simp add: c9_info_def c9_chan_def c10_narrow_def c2_info_def c2_chan_def c10_wide_def
      c9_wide_def)

section \<open>Choice of the decode path\<close>

definition c4_chan :: ChannelInfo where
  "c4_chan = \<lparr>name = ''Dev1/ai0'', rawSampleResolution = 16, rawSampleSizeInBits = 16,
     rawSampleJustification = DAQmx_Val_RightJustified, signedNumber = True,
     compressionType = DAQmx_Val_LosslessPacking, compressedSampleSizeInBits = 16,
     compressionByteOrder = BigEndian, polynomialScalingCoeffChain = [0, 1]\<rparr>"

text \<open>
  C4, as stated, fails: a channel with lossless packing and the byte-aligned
  stored width 16 is decoded by the bit-packed path when its byte order is big
  endian, and by the unpacked path when it is little endian.
\<close>

theorem SelectDecoder_byte_order_counterexample:
  "compressedSampleSizeInBits c4_chan mod 8 = 0
   \<and> SelectDecoder c4_chan = WithPacking
   \<and> SelectDecoder (c4_chan\<lparr>compressionByteOrder := LittleEndian\<rparr>) = WithoutPacking"
  by (simp add: SelectDecoder_def c4_chan_def)

text \<open>
  C4, amended: the unpacked path is taken exactly when the first channel has
  compression type None, or has little-endian byte order and a stored width
  that is a multiple of 8; the bit-packed path otherwise. The choice depends on
  these three attributes of the first channel and on nothing else.
\<close>

theorem SelectDecoder_iff:
  "(SelectDecoder chan = WithoutPacking \<longleftrightarrow>
      compressionType chan = DAQmx_Val_None \<or>
      (compressionByteOrder chan = LittleEndian \<and> compressedSampleSizeInBits chan mod 8 = 0))
   \<and> (SelectDecoder chan = WithPacking \<longleftrightarrow>
      \<not> (compressionType chan = DAQmx_Val_None \<or>
      (compressionByteOrder chan = LittleEndian \<and> compressedSampleSizeInBits chan mod 8 = 0)))
   \<and> (compressionType chan' = compressionType chan \<and>
       compressionByteOrder chan' = compressionByteOrder chan \<and>
       compressedSampleSizeInBits chan' mod 8 = compressedSampleSizeInBits chan mod 8 \<longrightarrow>
         SelectDecoder chan' = SelectDecoder chan)"
  by (simp add: SelectDecoder_def)

theorem SelectDecoder_iff_witness:
  "SelectDecoder (c4_chan\<lparr>name := ''Dev1/ai1'', signedNumber := False\<rparr>) = SelectDecoder c4_chan
   \<and> SelectDecoder c4_chan = WithPacking"
  using SelectDecoder_iff [of c4_chan "c4_chan\<lparr>name := ''Dev1/ai1'', signedNumber := False\<rparr>"]
  by (simp add: c4_chan_def)

section \<open>The bit-packed decoder\<close>

subsection \<open>Reference functions\<close>

text \<open>
  None of the functions of this subsection is part of the program. They
  describe, for the statements about \<^verbatim>\<open>DecodeDataWithPacking\<close>, the bit stream
  the decoder reads and the rows it is expected to return.

  \<open>bits_of\<close> lists the bits of a byte sequence, each byte from bit 7 down to
  bit 0; \<open>bits_word\<close> is the value the bit loop accumulates from a list of bits
  (\<^verbatim>\<open>val <<= 1; val += bit\<close>).
\<close>

definition bits_of :: "uInt8 list \<Rightarrow> bool list" where
  "bits_of bytes = concat (map (\<lambda>b. map (\<lambda>j. bit b (7 - j)) [0..<8]) bytes)"

definition bits_word :: "bool list \<Rightarrow> long \<Rightarrow> long" where
  "bits_word bs val = foldl (\<lambda>a b. push_bit 1 a + of_bool b) val bs"

text \<open>
  The cursor the decoder holds when it stands before bit \<open>p\<close> of a block whose
  bytes present in the buffer are \<open>blk\<close>, followed in the buffer by \<open>tail\<close>. At
  the end of the block it keeps the last byte with \<^verbatim>\<open>bitPos\<close> at 8. \<open>fits\<close> says
  that the bit position \<open>q\<close> can be reached without a byte that is not there:
  it lies inside the bytes present, or it is the end of a block that is
  complete.
\<close>

definition cursor_at :: "uInt8 list \<Rightarrow> uInt8 list \<Rightarrow> nat \<Rightarrow> BitCursor" where
  "cursor_at blk tail p =
     (if p < 8 * length blk
      then \<lparr>ch = ucast (blk ! (p div 8)), bitPos = p mod 8,
            byteCount = of_nat (p div 8 + 1), unread = drop (p div 8 + 1) blk @ tail\<rparr>
      else \<lparr>ch = ucast (last blk), bitPos = 8,
            byteCount = of_nat (length blk), unread = tail\<rparr>)"

definition fits :: "uInt8 list \<Rightarrow> uInt32 \<Rightarrow> nat \<Rightarrow> bool" where
  "fits blk B q \<longleftrightarrow> q < 8 * length blk \<or> (q = 8 * length blk \<and> length blk = unat B)"

text \<open>
  The stored width of a channel, the number of bits of one sample of all
  channels, and the agreement of the header with itself: the chain has
  \<^verbatim>\<open>numberOfChannels\<close> entries and a block of \<^verbatim>\<open>readBlockSizeInBytes\<close> bytes holds
  exactly \<^verbatim>\<open>readBlockSize\<close> samples of all channels, with no padding.
\<close>

definition width_of :: "ChannelInfo \<Rightarrow> nat" where
  "width_of chan = unat (compressedSampleSizeInBits chan)"

definition row_bits :: "ChannelInfo list \<Rightarrow> nat" where
  "row_bits chain = sum_list (map width_of chain)"

definition consistent :: "DataFileInfo \<Rightarrow> bool" where
  "consistent info \<longleftrightarrow>
     unat (numberOfChannels info) = length (channelInfoChain info) \<and>
     0 < readBlockSizeInBytes info \<and>
     unat (readBlockSize info) * row_bits (channelInfoChain info)
       = 8 * unat (readBlockSizeInBytes info)"

text \<open>
  The expected output by bit position: the value of one channel read at bit
  \<open>p\<close> of a block, the row of all channels, the rows of a block, and the rows of
  the first \<open>k\<close> complete blocks of a buffer.
\<close>

definition sample_at :: "ChannelInfo \<Rightarrow> uInt8 list \<Rightarrow> nat \<Rightarrow> long" where
  "sample_at chan blk p =
     Reconstruct chan (bits_word (take (width_of chan) (drop p (bits_of blk))) 0)"

fun row_at :: "(ChannelInfo \<Rightarrow> long \<Rightarrow> 'a) \<Rightarrow> uInt8 list \<Rightarrow> nat \<Rightarrow> ChannelInfo list \<Rightarrow> 'a list" where
  "row_at scale blk p [] = []"
| "row_at scale blk p (chan # chain) =
     scale chan (sample_at chan blk p) # row_at scale blk (p + width_of chan) chain"

fun block_rows ::
  "(ChannelInfo \<Rightarrow> long \<Rightarrow> 'a) \<Rightarrow> ChannelInfo list \<Rightarrow> uInt8 list \<Rightarrow> nat \<Rightarrow> nat \<Rightarrow> 'a list list" where
  "block_rows scale chain blk p 0 = []"
| "block_rows scale chain blk p (Suc n) =
     row_at scale blk p chain # block_rows scale chain blk (p + row_bits chain) n"

fun blocks_rows ::
  "(ChannelInfo \<Rightarrow> long \<Rightarrow> 'a) \<Rightarrow> DataFileInfo \<Rightarrow> nat \<Rightarrow> uInt8 list \<Rightarrow> 'a list list" where
  "blocks_rows scale info 0 rawData = []"
| "blocks_rows scale info (Suc k) rawData =
     block_rows scale (channelInfoChain info)
       (take (unat (readBlockSizeInBytes info)) rawData) 0 (unat (readBlockSize info))
     @ blocks_rows scale info k (drop (unat (readBlockSizeInBytes info)) rawData)"

text \<open>
  The packer of the specification: every value contributes its 12 low bits,
  most significant first, values and rows follow each other without padding,
  and the bits are cut into bytes, the first bit of eight being bit 7. A last
  byte that is not full is filled with zero bits. \<open>in_range12\<close> says that a
  value is a 12-bit raw value of the channel: between -2048 and 2047 for a
  signed channel, below 4096 for an unsigned one.
\<close>

primrec bits_msb :: "nat \<Rightarrow> long \<Rightarrow> bool list" where
  "bits_msb 0 v = []"
| "bits_msb (Suc w) v = bit v w # bits_msb w v"

definition byte_of_bits :: "bool list \<Rightarrow> uInt8" where
  "byte_of_bits bs = horner_sum of_bool 2 (rev (take 8 (bs @ replicate 8 False)))"

function pack_bits :: "bool list \<Rightarrow> uInt8 list" where
  "pack_bits bs = (if bs = [] then [] else byte_of_bits (take 8 bs) # pack_bits (drop 8 bs))"
  by pat_completeness auto
termination
  by (relation "measure length") auto

definition row_bits12 :: "long list \<Rightarrow> bool list" where
  "row_bits12 row = concat (map (bits_msb 12) row)"

definition pack12 :: "long list list \<Rightarrow> uInt8 list" where
  "pack12 vals = pack_bits (concat (map row_bits12 vals))"

definition in_range12 :: "ChannelInfo \<Rightarrow> long \<Rightarrow> bool" where
  "in_range12 chan v =
     (if signedNumber chan then - 2048 \<le> sint v \<and> sint v < 2048 else v < 4096)"

text \<open>The inputs of the examples.\<close>

definition c1_chan :: ChannelInfo where
  "c1_chan = \<lparr>name = ''Dev1/ai0'', rawSampleResolution = 12, rawSampleSizeInBits = 16,
     rawSampleJustification = DAQmx_Val_RightJustified, signedNumber = True,
     compressionType = DAQmx_Val_LosslessPacking, compressedSampleSizeInBits = 12,
     compressionByteOrder = BigEndian, polynomialScalingCoeffChain = [0, 1]\<rparr>"

definition c1_info :: DataFileInfo where
  "c1_info = \<lparr>version = ''1.0.0'', headerSize = 700, taskName = ''_unnamedTask<0>'',
     numberOfChannels = 2, readBlockSize = 2, readBlockSizeInBytes = 6,
     channelInfoChain = [c1_chan, c1_chan\<lparr>name := ''Dev1/ai1'', signedNumber := False\<rparr>]\<rparr>"

definition c1_vals :: "long list list" where
  "c1_vals = [[- 2048, 0xABC], [0x7FF, 1]]"

definition c3_info :: DataFileInfo where
  "c3_info = \<lparr>version = ''1.0.0'', headerSize = 400, taskName = ''_unnamedTask<0>'',
     numberOfChannels = 1, readBlockSize = 4, readBlockSizeInBytes = 6,
     channelInfoChain = [c1_chan]\<rparr>"

definition c3_raw :: "uInt8 list" where
  "c3_raw = [0x00, 0x10, 0x02, 0x00, 0x30, 0x04, 0x00, 0x50, 0x06]"

definition c3u_info :: DataFileInfo where
  "c3u_info = \<lparr>version = ''1.0.0'', headerSize = 400, taskName = ''_unnamedTask<0>'',
     numberOfChannels = 1, readBlockSize = 2, readBlockSizeInBytes = 4,
     channelInfoChain = [c9_chan]\<rparr>"

definition c3u_raw :: "uInt8 list" where
  "c3u_raw = [0x01, 0x00, 0x02, 0x00, 0x03]"

definition c5_chan :: ChannelInfo where
  "c5_chan = c1_chan\<lparr>rawSampleResolution := 16, compressionType := DAQmx_Val_LossyLSBRemoval\<rparr>"

definition c5_cur :: BitCursor where
  "c5_cur = \<lparr>ch = 0xAB, bitPos = 0, byteCount = 1, unread = [0xC0]\<rparr>"

subsection \<open>Shift and sign extension\<close>

lemma high_bits_clear:
  fixes x :: "'a::len word"
  assumes "x < 2 ^ R" "R \<le> n"
  shows "\<not> bit x n"
proof -
  from assms(1) have "take_bit R x = x"
    by (metis less_mask_eq take_bit_eq_mask) 
  then have "bit x n = bit (take_bit R x) n" by simp
  with assms(2) show ?thesis by (simp add: bit_take_bit_iff)
qed

lemma sign_extend_word:
  fixes x :: "32 word"
  assumes "0 < R" "R < 32" "\<And>m. R \<le> m \<Longrightarrow> \<not> bit x m"
  shows "sint (if bit x (R - 1) then x OR NOT (mask R) else x) = signed_take_bit (R - 1) (uint x)"
proof (rule bit_eqI)
  fix n
  consider "n < R - 1" | "n = R - 1" | "R \<le> n" by linarith
  then show "bit (sint (if bit x (R - 1) then x OR NOT (mask R) else x)) n
       = bit (signed_take_bit (R - 1) (uint x)) n"
  proof cases
    case 1
    with assms(1,2) assms(3) [of 31] show ?thesis
      by (auto simp: bit_sint_iff bit_signed_take_bit_iff bit_or_iff bit_not_iff bit_mask_iff
          bit_uint_iff min_def)
  next
    case 2
    with assms(1,2) assms(3) [of 31] show ?thesis
      by (auto simp: bit_sint_iff bit_signed_take_bit_iff bit_or_iff bit_not_iff bit_mask_iff
          bit_uint_iff min_def)
  next
    case 3
    with assms(1,2) assms(3) [of 31] assms(3) [of n] show ?thesis
      by (auto simp: bit_sint_iff bit_signed_take_bit_iff bit_or_iff bit_not_iff bit_mask_iff
          bit_uint_iff min_def)
  qed
qed

lemma extendmask_eq: "(0xFFFFFFFF - push_bit R 1 + 1 :: uInt32) = NOT (mask R)"
  by (simp add: not_eq_complement mask_eq_exp_minus_1)

lemma realsize_eq: "compressedSampleSizeInBits chan + lsb_of chan = rawWidth_of chan"
  by (simp add: lsb_of_def)

lemma Reconstruct_eq:
  assumes "0 < rawWidth_of chan"
  shows "Reconstruct chan val =
     (let x = push_bit (unat (lsb_of chan)) val
      in if signedNumber chan \<and> rawWidth_of chan < 32 \<and> bit x (unat (rawWidth_of chan) - 1)
         then x OR NOT (mask (unat (rawWidth_of chan))) else x)"
proof -
  from assms have "unat (rawWidth_of chan - 1) = unat (rawWidth_of chan) - 1"
    by (simp add: unat_minus_one word_neq_0_conv)
  then show ?thesis
    unfolding Reconstruct_def Let_def realsize_eq extendmask_eq
    by (simp add: bit_iff_and_push_bit_not_eq_0)
qed

lemma Reconstruct_value:
  assumes w: "compressedSampleSizeInBits chan \<le> rawWidth_of chan"
    and R: "0 < rawWidth_of chan" "rawWidth_of chan < 32"
    and v: "val < 2 ^ unat (compressedSampleSizeInBits chan)"
  shows "take_bit (unat (lsb_of chan)) (Reconstruct chan val) = 0"
    and "sint (Reconstruct chan val) =
      (if signedNumber chan
       then signed_take_bit (unat (rawWidth_of chan) - 1) (uint val * 2 ^ unat (lsb_of chan))
       else uint val * 2 ^ unat (lsb_of chan))"
proof -
  define l where "l = unat (lsb_of chan)"
  define n where "n = unat (compressedSampleSizeInBits chan)"
  define r where "r = unat (rawWidth_of chan)"
  define x where "x = push_bit l val"
  from w have l: "l = r - n" "n \<le> r"
    by (simp_all add: l_def r_def n_def lsb_of_def unat_sub word_le_nat_alt)
  from R have r: "0 < r" "r < 32"
    by (simp_all add: r_def word_less_nat_alt)
  have hv: "\<not> bit val m" if "n \<le> m" for m
    using v that high_bits_clear unfolding n_def by blast
  have hx: "\<not> bit x m" if "r \<le> m" for m
    using that hv [of "m - l"] l by (auto simp: x_def bit_push_bit_iff)
  have rec: "Reconstruct chan val =
      (if signedNumber chan \<and> bit x (r - 1) then x OR NOT (mask r) else x)"
    using R by (simp add: Reconstruct_eq Let_def x_def l_def r_def)
  show "take_bit (unat (lsb_of chan)) (Reconstruct chan val) = 0"
    unfolding rec l_def [symmetric]
    by (rule bit_eqI) (use l in \<open>auto simp: bit_take_bit_iff bit_or_iff bit_not_iff bit_mask_iff
        x_def bit_push_bit_iff\<close>)
  have ux: "uint x = uint val * 2 ^ l"
  proof -
    from v have "take_bit n val = val"
      unfolding n_def by (metis less_mask_eq take_bit_eq_mask)
    then have "uint val = take_bit n (uint val)"
      by (metis unsigned_take_bit_eq)
    then have "uint val < 2 ^ n"
      by (metis take_bit_int_less_exp)
    then have "uint val * 2 ^ l < 2 ^ n * 2 ^ l" by simp
    also have "\<dots> = 2 ^ r" using l by (simp flip: power_add)
    also have "\<dots> < (2 :: int) ^ 32" using r by (intro power_strict_increasing) simp_all
    finally have "uint val * 2 ^ l < 2 ^ 32" .
    then have "take_bit 32 (push_bit l (uint val)) = push_bit l (uint val)"
      by (simp add: take_bit_int_eq_self push_bit_eq_mult)
    moreover have "uint (push_bit l val) = take_bit 32 (push_bit l (uint val))"
      by (simp add: unsigned_push_bit_eq)
    ultimately show ?thesis
      by (simp add: x_def push_bit_eq_mult)
  qed
  show "sint (Reconstruct chan val) =
      (if signedNumber chan
       then signed_take_bit (unat (rawWidth_of chan) - 1) (uint val * 2 ^ unat (lsb_of chan))
       else uint val * 2 ^ unat (lsb_of chan))"
  proof (cases "signedNumber chan")
    case True
    with rec sign_extend_word [OF r, of x] hx show ?thesis
      by (simp add: ux r_def l_def)
  next
    case False
    have "\<not> bit x 31" using hx [of 31] r by simp
    then have "sint x = uint x"
      by (intro bit_eqI) (auto simp: bit_sint_iff bit_uint_iff dest: bit_imp_le_length)
    with False rec show ?thesis by (simp add: ux l_def)
  qed
qed

subsection \<open>The bit loop on a block\<close>

lemma length_bits_of [simp]: "length (bits_of bytes) = 8 * length bytes"
  by (induction bytes) (simp_all add: bits_of_def)

lemma bits_of_append: "bits_of (xs @ ys) = bits_of xs @ bits_of ys"
  by (simp add: bits_of_def)

lemma bits_of_Cons: "bits_of (b # bytes) = map (\<lambda>j. bit b (7 - j)) [0..<8] @ bits_of bytes"
  by (simp add: bits_of_def)

lemma bits_of_nth:
  "p < 8 * length blk \<Longrightarrow> bits_of blk ! p = bit (blk ! (p div 8)) (7 - p mod 8)"
proof (induction blk arbitrary: p)
  case Nil
  then show ?case by simp
next
  case (Cons b blk)
  show ?case
  proof (cases "p < 8")
    case True
    then show ?thesis by (simp add: bits_of_Cons nth_append)
  next
    case False
    then obtain q where q: "p = q + 8" by (metis le_add_diff_inverse2 not_less)
    with Cons.prems have "q < 8 * length blk" by simp
    from Cons.IH [OF this] q show ?thesis
      by (simp add: bits_of_Cons nth_append)
  qed
qed

lemma current_bit:
  fixes b :: uInt8
  assumes "n < 8"
  shows "(drop_bit n (ucast b :: uInt32) AND 1) = of_bool (bit b n)"
proof -
  have "bit (ucast b :: uInt32) n = bit b n"
    using assms by (simp add: bit_ucast_iff)
  then show ?thesis
    by (simp add: and_one_eq mod_2_eq_odd bit_iff_odd_drop_bit)
qed

lemma ExtractBits_step:
  assumes p: "p < 8 * length blk" and B: "length blk \<le> unat B"
    and t: "length blk < unat B \<Longrightarrow> tail = []"
  shows "ExtractBits B (Suc k) (cursor_at blk tail p) val =
     (if Suc p = 8 * length blk \<and> length blk < unat B then Inl EndOfData
      else ExtractBits B k (cursor_at blk tail (Suc p))
             (push_bit 1 val + of_bool (bits_of blk ! p)))"
proof -
  let ?i = "p div 8"
  define cur where "cur = cursor_at blk tail p"
  define val' where "val' = push_bit 1 val + of_bool (bits_of blk ! p)"
  from p have i: "?i < length blk" by simp
  have c: "ch cur = ucast (blk ! ?i)" "bitPos cur = p mod 8"
    "byteCount cur = of_nat (?i + 1)" "unread cur = drop (?i + 1) blk @ tail"
    using p by (simp_all add: cur_def cursor_at_def)
  have m: "8 - p mod 8 - 1 = 7 - p mod 8" "7 - p mod 8 < 8" "\<not> 8 \<le> p mod 8" by simp_all
  have v: "push_bit 1 val + (drop_bit (8 - p mod 8 - 1) (ucast (blk ! ?i) :: uInt32) AND 1) = val'"
    unfolding m(1) val'_def by (simp add: current_bit bits_of_nth [OF p])
  have bc: "unat (of_nat (?i + 1) :: uInt32) = ?i + 1"
    using i B by (intro le_unat_uoi [of _ B]) simp
  have bclt: "(of_nat (?i + 1) :: uInt32) < B \<longleftrightarrow> ?i + 1 < unat B"
    by (simp only: word_less_nat_alt bc)
  have unfold: "ExtractBits B (Suc k) cur val =
      (if p mod 8 + 1 = 8 \<and> ?i + 1 < unat B
       then (case drop (?i + 1) blk @ tail of
               [] \<Rightarrow> Inl EndOfData
             | b # bs \<Rightarrow> ExtractBits B k
                 \<lparr>ch = ucast b, bitPos = 0, byteCount = of_nat (?i + 1) + 1, unread = bs\<rparr> val')
       else ExtractBits B k (cur\<lparr>bitPos := p mod 8 + 1\<rparr>) val')"
    unfolding ExtractBits.simps(2) Let_def c v bclt using m(3) by simp
  show ?thesis
  proof (cases "p mod 8 = 7")
    case False
    then have s: "Suc p div 8 = ?i" "Suc p mod 8 = p mod 8 + 1" "Suc p < 8 * length blk"
      using p by (simp_all add: div_Suc mod_Suc) presburger+
    have "cur\<lparr>bitPos := p mod 8 + 1\<rparr> = cursor_at blk tail (Suc p)"
      using p s by (simp add: cur_def cursor_at_def)
    with unfold False s(3) show ?thesis
      by (simp add: cur_def val'_def)
  next
    case True
    then have s: "Suc p div 8 = ?i + 1" "Suc p mod 8 = 0" "Suc p = 8 * (?i + 1)"
      by (simp_all add: div_Suc mod_Suc) presburger+
    show ?thesis
    proof (cases "?i + 1 < length blk")
      case long: True
      then have lt: "?i + 1 < unat B" using B by simp
      have d: "drop (?i + 1) blk @ tail = blk ! (?i + 1) # (drop (?i + 2) blk @ tail)"
        using long by (simp add: Cons_nth_drop_Suc)
      have sp: "Suc p < 8 * length blk" using long s by simp
      have "cursor_at blk tail (Suc p) =
          \<lparr>ch = ucast (blk ! (Suc p div 8)), bitPos = Suc p mod 8,
            byteCount = of_nat (Suc p div 8 + 1), unread = drop (Suc p div 8 + 1) blk @ tail\<rparr>"
        using sp by (simp add: cursor_at_def)
      then have "\<lparr>ch = ucast (blk ! (?i + 1)), bitPos = 0,
             byteCount = of_nat (?i + 1) + 1, unread = drop (?i + 2) blk @ tail\<rparr>
           = cursor_at blk tail (Suc p)"
        unfolding s(1) s(2) by (simp add: add.commute)
      with unfold True lt d sp show ?thesis
        by (simp add: cur_def val'_def)
    next
      case False
      with i have e: "?i + 1 = length blk" by simp
      then have sp: "Suc p = 8 * length blk" using s by simp
      show ?thesis
      proof (cases "length blk < unat B")
        case True
        with unfold \<open>p mod 8 = 7\<close> e sp t [OF True] show ?thesis
          by (simp add: cur_def)
      next
        case False
        have l: "last blk = blk ! ?i"
          using e i by (metis add_diff_cancel_right' last_conv_nth length_0_conv not_less_zero)
        have "cur\<lparr>bitPos := 8\<rparr> = cursor_at blk tail (Suc p)"
          using p sp e l by (simp add: cur_def cursor_at_def)
        with unfold \<open>p mod 8 = 7\<close> e sp False show ?thesis
          by (simp add: cur_def val'_def)
      qed
    qed
  qed
qed

lemma fits_mono: "fits blk B q \<Longrightarrow> q' \<le> q \<Longrightarrow> fits blk B q'"
  by (auto simp: fits_def)

lemma length_block_rows [simp]: "length (block_rows scale chain blk p n) = n"
  by (induction n arbitrary: p) simp_all

lemma ExtractBits_fits:
  assumes "length blk \<le> unat B" and "length blk < unat B \<Longrightarrow> tail = []"
    and "fits blk B (p + k)"
  shows "ExtractBits B k (cursor_at blk tail p) val =
     Inr (bits_word (take k (drop p (bits_of blk))) val, cursor_at blk tail (p + k))"
  using assms(3)
proof (induction k arbitrary: p val)
  case 0
  show ?case by (simp add: bits_word_def)
next
  case (Suc k)
  then have p: "p < 8 * length blk" and ns: "\<not> (Suc p = 8 * length blk \<and> length blk < unat B)"
    by (auto simp: fits_def)
  from Suc.prems have "fits blk B (Suc p + k)" by simp
  from Suc.IH [OF this] have
    "ExtractBits B k (cursor_at blk tail (Suc p)) (push_bit 1 val + of_bool (bits_of blk ! p)) =
       Inr (bits_word (take k (drop (Suc p) (bits_of blk)))
              (push_bit 1 val + of_bool (bits_of blk ! p)),
            cursor_at blk tail (Suc p + k))" .
  moreover have "take (Suc k) (drop p (bits_of blk)) = bits_of blk ! p # take k (drop (Suc p) (bits_of blk))"
    using p by (simp flip: Cons_nth_drop_Suc)
  ultimately show ?case
    using ns by (simp add: ExtractBits_step [OF p assms(1,2)] bits_word_def del: ExtractBits.simps)
qed

lemma ExtractBits_exhausted:
  assumes "length blk < unat B" and "tail = []"
    and "p < 8 * length blk" and "8 * length blk \<le> p + k"
  shows "ExtractBits B k (cursor_at blk tail p) val = Inl EndOfData"
  using assms(3,4)
proof (induction k arbitrary: p val)
  case 0
  then show ?case by simp
next
  case (Suc k)
  have le: "length blk \<le> unat B" using assms(1) by simp
  show ?case
  proof (cases "Suc p = 8 * length blk")
    case True
    with assms(1) show ?thesis
      by (simp add: ExtractBits_step [OF Suc.prems(1) le assms(2)] del: ExtractBits.simps)
  next
    case False
    with Suc.prems have "Suc p < 8 * length blk" "8 * length blk \<le> Suc p + k" by simp_all
    from Suc.IH [OF this] False show ?thesis
      by (simp add: ExtractBits_step [OF Suc.prems(1) le assms(2)] del: ExtractBits.simps)
  qed
qed

lemma ExtractBits_bound:
  assumes "ExtractBits B k cur val = Inr (val', cur')" and "unat val < 2 ^ j"
  shows "unat val' < 2 ^ (j + k)"
  using assms
proof (induction k arbitrary: cur val j)
  case 0
  then show ?case by simp
next
  case (Suc k)
  define b :: long where "b = drop_bit (8 - bitPos cur - 1) (ch cur) AND 1"
  define v1 where "v1 = push_bit 1 val + b"
  have "b \<le> 1" unfolding b_def by (rule word_and_le1)
  then have ub: "unat b \<le> 1" by (simp add: word_le_nat_alt)
  have "unat (push_bit 1 val) \<le> 2 * unat val"
    by (simp add: push_bit_eq_mult unat_word_ariths)
  moreover have "unat v1 \<le> unat (push_bit 1 val) + unat b"
    unfolding v1_def by (simp add: unat_word_ariths)
  ultimately have "unat v1 \<le> 2 * unat val + 1" using ub by linarith
  with Suc.prems(2) have v1: "unat v1 < 2 ^ (Suc j)" by simp
  from Suc.prems(1) obtain cur1 where "ExtractBits B k cur1 v1 = Inr (val', cur')"
    by (auto simp: Let_def b_def v1_def split: if_splits list.splits)
  from Suc.IH [OF this v1] show ?case by simp
qed

subsection \<open>Samples, rows, blocks and the buffer\<close>

lemma PackedSample_fits:
  assumes "length blk \<le> unat B" and "length blk < unat B \<Longrightarrow> tail = []"
    and "fits blk B (p + width_of chan)"
  shows "PackedSample B chan (cursor_at blk tail p) =
     Inr (sample_at chan blk p, cursor_at blk tail (p + width_of chan))"
  using ExtractBits_fits [OF assms(1,2), of p "width_of chan" 0] assms(3)
  by (simp add: PackedSample_def sample_at_def width_of_def)

lemma PackedSample_exhausted:
  assumes "length blk < unat B" and "tail = []"
    and "p < 8 * length blk" and "8 * length blk \<le> p + width_of chan"
  shows "PackedSample B chan (cursor_at blk tail p) = Inl EndOfData"
  using ExtractBits_exhausted [OF assms(1,2,3), of "width_of chan" 0] assms(4)
  by (simp add: PackedSample_def width_of_def)

lemma PackedRow_fits:
  assumes "length blk \<le> unat B" and "length blk < unat B \<Longrightarrow> tail = []"
    and "fits blk B (p + row_bits chain)"
  shows "PackedRow scale B (length chain) chain (cursor_at blk tail p) row =
     Inr (row @ row_at scale blk p chain, cursor_at blk tail (p + row_bits chain))"
  using assms(3)
proof (induction chain arbitrary: p row)
  case Nil
  show ?case by (simp add: row_bits_def)
next
  case (Cons chan chain)
  have rb: "row_bits (chan # chain) = width_of chan + row_bits chain"
    by (simp add: row_bits_def)
  from Cons.prems have f1: "fits blk B (p + width_of chan)"
    by (rule fits_mono) (simp add: rb)
  from Cons.prems have f2: "fits blk B (p + width_of chan + row_bits chain)"
    by (simp add: rb add.assoc)
  show ?case
    by (simp add: PackedSample_fits [OF assms(1,2) f1] Cons.IH [OF f2] rb add.assoc)
qed

lemma PackedRow_exhausted:
  assumes "length blk < unat B" and "tail = []"
    and "p < 8 * length blk" and "8 * length blk \<le> p + row_bits chain"
  shows "PackedRow scale B (length chain) chain (cursor_at blk tail p) row = Inl EndOfData"
  using assms(3,4)
proof (induction chain arbitrary: p row)
  case Nil
  then show ?case by (simp add: row_bits_def)
next
  case (Cons chan chain)
  have rb: "row_bits (chan # chain) = width_of chan + row_bits chain"
    by (simp add: row_bits_def)
  have le: "length blk \<le> unat B" using assms(1) by simp
  show ?case
  proof (cases "8 * length blk \<le> p + width_of chan")
    case True
    then show ?thesis
      by (simp add: PackedSample_exhausted [OF assms(1,2) Cons.prems(1)])
  next
    case False
    then have lt: "p + width_of chan < 8 * length blk" by simp
    then have f: "fits blk B (p + width_of chan)" by (simp add: fits_def)
    from Cons.prems have "8 * length blk \<le> p + width_of chan + row_bits chain"
      by (simp add: rb add.assoc)
    from Cons.IH [OF lt this] show ?thesis
      using assms(2) by (simp add: PackedSample_fits [OF le _ f])
  qed
qed

lemma length_blocks_rows [simp]:
  "length (blocks_rows scale info k rawData) = k * unat (readBlockSize info)"
  by (induction k arbitrary: rawData) simp_all

lemma PackedBlock_fits:
  assumes "unat (numberOfChannels info) = length (channelInfoChain info)"
    and "length blk \<le> unat (readBlockSizeInBytes info)"
    and "length blk < unat (readBlockSizeInBytes info) \<Longrightarrow> tail = []"
    and "fits blk (readBlockSizeInBytes info) (p + n * row_bits (channelInfoChain info))"
  shows "PackedBlock scale info n (cursor_at blk tail p) rows =
     Inr (rows @ block_rows scale (channelInfoChain info) blk p n,
          cursor_at blk tail (p + n * row_bits (channelInfoChain info)))"
  using assms(4)
proof (induction n arbitrary: p rows)
  case 0
  show ?case by simp
next
  case (Suc n)
  let ?rb = "row_bits (channelInfoChain info)"
  from Suc.prems have f1: "fits blk (readBlockSizeInBytes info) (p + ?rb)"
    by (rule fits_mono) simp
  from Suc.prems have f2: "fits blk (readBlockSizeInBytes info) (p + ?rb + n * ?rb)"
    by (simp add: add.assoc)
  show ?case
    by (simp add: assms(1) PackedRow_fits [OF assms(2,3) f1] Suc.IH [OF f2] add.assoc)
qed

lemma PackedBlock_exhausted:
  assumes "unat (numberOfChannels info) = length (channelInfoChain info)"
    and "length blk < unat (readBlockSizeInBytes info)" and "tail = []"
    and "0 < row_bits (channelInfoChain info)"
    and "p < 8 * length blk" and "8 * length blk \<le> p + n * row_bits (channelInfoChain info)"
  shows "PackedBlock scale info n (cursor_at blk tail p) rows =
     Inl (EndOfData, rows @ block_rows scale (channelInfoChain info) blk p
            ((8 * length blk - 1 - p) div row_bits (channelInfoChain info)))"
  using assms(5,6)
proof (induction n arbitrary: p rows)
  case 0
  then show ?case by simp
next
  case (Suc n)
  let ?rb = "row_bits (channelInfoChain info)"
  let ?L = "8 * length blk"
  have le: "length blk \<le> unat (readBlockSizeInBytes info)" using assms(2) by simp
  show ?case
  proof (cases "?L \<le> p + ?rb")
    case True
    with Suc.prems(1) have "(?L - 1 - p) div ?rb = 0" by simp
    then show ?thesis
      by (simp add: assms(1) PackedRow_exhausted [OF assms(2,3) Suc.prems(1) True])
  next
    case False
    then have lt: "p + ?rb < ?L" by simp
    then have f: "fits blk (readBlockSizeInBytes info) (p + ?rb)" by (simp add: fits_def)
    from Suc.prems have "?L \<le> p + ?rb + n * ?rb" by (simp add: add.assoc)
    note IH = Suc.IH [OF lt this]
    define q where "q = (?L - 1 - (p + ?rb)) div ?rb"
    have "?L - 1 - p = (?L - 1 - (p + ?rb)) + ?rb" using lt by simp
    then have "(?L - 1 - p) div ?rb = (?L - 1 - (p + ?rb)) div ?rb + 1"
      using assms(4) by (metis div_add_self2 less_numeral_extra(3))
    then have d: "(?L - 1 - p) div ?rb = Suc q" by (simp add: q_def)
    have "PackedRow scale (readBlockSizeInBytes info) (length (channelInfoChain info))
        (channelInfoChain info) (cursor_at blk tail p) [] =
        Inr ([] @ row_at scale blk p (channelInfoChain info), cursor_at blk tail (p + ?rb))"
      using assms(3) by (intro PackedRow_fits [OF le _ f])
    then show ?thesis
      unfolding d by (simp add: assms(1) IH [folded q_def])
  qed
qed

lemma PackedLoop_start:
  assumes "blk \<noteq> []"
  shows "PackedLoop scale info (blk @ tail) rows =
     (case PackedBlock scale info (unat (readBlockSize info)) (cursor_at blk tail 0) rows of
        Inl (EndOfData, rows') \<Rightarrow> Inr rows'
      | Inl (NegativeShift, rows') \<Rightarrow> Inl NegativeShift
      | Inr (rows', cur') \<Rightarrow> PackedLoop scale info (unread cur') rows')"
proof -
  from assms obtain b bs where blk: "blk = b # bs" by (cases blk) auto
  have "\<lparr>ch = ucast b, bitPos = 0, byteCount = 1, unread = bs @ tail\<rparr> = cursor_at blk tail 0"
    by (simp add: blk cursor_at_def)
  then show ?thesis by (simp add: blk)
qed

lemma end_cursor: "unread (cursor_at blk tail (8 * length blk)) = tail"
  by (simp add: cursor_at_def)

lemma PackedLoop_blocks:
  assumes c: "consistent info"
    and len: "length rawData = k * unat (readBlockSizeInBytes info) + r"
    and r: "r < unat (readBlockSizeInBytes info)"
  shows "PackedLoop scale info rawData rows =
     Inr (rows @ blocks_rows scale info k rawData @
          block_rows scale (channelInfoChain info)
            (drop (k * unat (readBlockSizeInBytes info)) rawData) 0
            ((8 * r - 1) div row_bits (channelInfoChain info)))"
  using len
proof (induction k arbitrary: rawData rows)
  case 0
  let ?B = "unat (readBlockSizeInBytes info)"
  let ?rb = "row_bits (channelInfoChain info)"
  let ?m = "unat (readBlockSize info)"
  from c have nc: "unat (numberOfChannels info) = length (channelInfoChain info)"
    and B: "0 < ?B" and m: "?m * ?rb = 8 * ?B"
    by (simp_all add: consistent_def word_greater_zero_iff unat_gt_0)
  show ?case
  proof (cases "rawData = []")
    case True
    with 0 show ?thesis by simp
  next
    case False
    from 0 r have l: "length rawData < ?B" "r = length rawData" by simp_all
    have rb: "0 < ?rb" using m B by (cases "?rb = 0") simp_all
    have p: "0 < 8 * length rawData" using False by simp
    have e: "8 * length rawData \<le> 0 + ?m * ?rb"
      using l m by simp
    have "PackedBlock scale info ?m (cursor_at rawData [] 0) rows =
        Inl (EndOfData, rows @ block_rows scale (channelInfoChain info) rawData 0
            ((8 * length rawData - 1 - 0) div ?rb))"
      by (rule PackedBlock_exhausted [OF nc l(1) refl rb p e])
    with PackedLoop_start [OF False, of scale info "[]" rows] show ?thesis
      by (simp add: l(2))
  qed
next
  case (Suc k)
  let ?B = "unat (readBlockSizeInBytes info)"
  let ?rb = "row_bits (channelInfoChain info)"
  let ?m = "unat (readBlockSize info)"
  define blk where "blk = take ?B rawData"
  define tail where "tail = drop ?B rawData"
  from c have nc: "unat (numberOfChannels info) = length (channelInfoChain info)"
    and B: "0 < ?B" and m: "?m * ?rb = 8 * ?B"
    by (simp_all add: consistent_def word_greater_zero_iff unat_gt_0)
  from Suc.prems have lb: "length blk = ?B" and lt: "length tail = k * ?B + r"
    by (simp_all add: blk_def tail_def)
  have raw: "rawData = blk @ tail" by (simp add: blk_def tail_def)
  from lb B have ne: "blk \<noteq> []" by auto
  have f: "fits blk (readBlockSizeInBytes info) (0 + ?m * ?rb)"
    using lb m by (simp add: fits_def)
  have le: "length blk \<le> ?B" using lb by simp
  have nt: "length blk < ?B \<Longrightarrow> tail = []" using lb by simp
  have "PackedBlock scale info ?m (cursor_at blk tail 0) rows =
      Inr (rows @ block_rows scale (channelInfoChain info) blk 0 ?m,
           cursor_at blk tail (0 + ?m * ?rb))"
    by (rule PackedBlock_fits [OF nc le nt f])
  moreover have "unread (cursor_at blk tail (0 + ?m * ?rb)) = tail"
    using end_cursor [of blk tail] lb m by simp
  ultimately have "PackedLoop scale info rawData rows =
      PackedLoop scale info tail (rows @ block_rows scale (channelInfoChain info) blk 0 ?m)"
    unfolding raw by (simp only: PackedLoop_start [OF ne] sum.case prod.case)
  also have "\<dots> = Inr ((rows @ block_rows scale (channelInfoChain info) blk 0 ?m) @
      blocks_rows scale info k tail @
      block_rows scale (channelInfoChain info) (drop (k * ?B) tail) 0 ((8 * r - 1) div ?rb))"
    by (rule Suc.IH [OF lt])
  also have "drop (k * ?B) tail = drop (Suc k * ?B) rawData"
    by (simp add: tail_def add.commute)
  finally show ?case
    by (simp add: blk_def tail_def)
qed

lemma DecodeDataWithPacking_count:
  assumes c: "consistent info"
  shows "\<exists>rows. DecodeDataWithPacking_with scale info rawData = Inr rows \<and>
     length rows =
       (length rawData div unat (readBlockSizeInBytes info)) * unat (readBlockSize info)
       + (8 * (length rawData mod unat (readBlockSizeInBytes info)) - 1)
           div row_bits (channelInfoChain info)"
proof -
  let ?B = "unat (readBlockSizeInBytes info)"
  from c have B: "0 < ?B"
    by (simp_all add: consistent_def word_greater_zero_iff unat_gt_0)
  have len: "length rawData = (length rawData div ?B) * ?B + length rawData mod ?B" by simp
  have r: "length rawData mod ?B < ?B" using B by simp
  show ?thesis
    unfolding DecodeDataWithPacking_with_def PackedLoop_blocks [OF c len r]
    by simp
qed

lemma PackedSample_shift_and_sign:
  assumes w: "compressedSampleSizeInBits chan \<le> rawWidth_of chan"
    and R: "0 < rawWidth_of chan" "rawWidth_of chan < 32"
    and s: "PackedSample B chan cur = Inr (v, cur')"
  shows "\<exists>val. ExtractBits B (unat (compressedSampleSizeInBits chan)) cur 0 = Inr (val, cur') \<and>
      val < 2 ^ unat (compressedSampleSizeInBits chan) \<and>
      v = (let x = push_bit (unat (lsb_of chan)) val;
               realsize = unat (compressedSampleSizeInBits chan + lsb_of chan)
           in if signedNumber chan \<and> bit x (realsize - 1) then x OR NOT (mask realsize) else x) \<and>
      take_bit (unat (lsb_of chan)) v = 0 \<and>
      sint v = (if signedNumber chan
                then signed_take_bit (unat (compressedSampleSizeInBits chan + lsb_of chan) - 1)
                       (uint val * 2 ^ unat (lsb_of chan))
                else uint val * 2 ^ unat (lsb_of chan))"
proof -
  let ?n = "unat (compressedSampleSizeInBits chan)"
  from s obtain val where e: "ExtractBits B ?n cur 0 = Inr (val, cur')"
    and v: "v = Reconstruct chan val"
    by (auto simp: PackedSample_def split: sum.splits)
  from ExtractBits_bound [OF e, of 0] have u: "unat val < 2 ^ ?n" by simp
  from w R have n: "?n < 32" by (simp add: word_le_nat_alt word_less_nat_alt)
  from u have "int (unat val) < 2 ^ ?n"
    by (metis of_nat_less_iff of_nat_numeral of_nat_power)
  with n have b: "val < 2 ^ ?n" by (simp add: word_2p_lem word_size)
  note rv = Reconstruct_value [OF w R b]
  have "Reconstruct chan val =
      (let x = push_bit (unat (lsb_of chan)) val;
           realsize = unat (compressedSampleSizeInBits chan + lsb_of chan)
       in if signedNumber chan \<and> bit x (realsize - 1) then x OR NOT (mask realsize) else x)"
    using R by (simp add: Reconstruct_eq realsize_eq Let_def)
  with e b rv show ?thesis
    unfolding v realsize_eq by blast
qed

subsection \<open>Packed 12-bit values\<close>

lemma length_bits_msb [simp]: "length (bits_msb w v) = w"
  by (induction w) simp_all

lemma take_bit_Suc_word:
  "take_bit (Suc w) (v :: long) = take_bit w v + push_bit w (of_bool (bit v w))"
proof -
  have "take_bit w v + push_bit w (of_bool (bit v w)) = take_bit w v OR push_bit w (of_bool (bit v w))"
    by (rule disjunctive_add) (auto simp: bit_take_bit_iff bit_push_bit_iff)
  also have "\<dots> = take_bit (Suc w) v"
    by (rule bit_eqI) (auto simp: bit_or_iff bit_take_bit_iff bit_push_bit_iff less_Suc_eq
        bit_of_bool_iff dest: bit_imp_le_length)
  finally show ?thesis by simp
qed

lemma bits_word_msb: "bits_word (bits_msb w v) a = push_bit w a + take_bit w v"
proof (induction w arbitrary: a)
  case 0
  show ?case by (simp add: bits_word_def)
next
  case (Suc w)
  have "bits_word (bits_msb (Suc w) v) a = bits_word (bits_msb w v) (push_bit 1 a + of_bool (bit v w))"
    by (simp add: bits_word_def)
  also have "\<dots> = push_bit w (push_bit 1 a + of_bool (bit v w)) + take_bit w v"
    by (rule Suc.IH)
  also have "\<dots> = push_bit (Suc w) a + take_bit (Suc w) v"
    by (simp only: take_bit_Suc_word push_bit_add push_bit_push_bit add.assoc
        add.commute [of w 1] plus_1_eq_Suc add.commute [of "take_bit w v"])
  finally show ?case .
qed

lemma bits_of_byte:
  assumes "length bs = 8"
  shows "map (\<lambda>j. bit (byte_of_bits bs) (7 - j)) [0..<8] = bs"
proof (rule nth_equalityI)
  show "length (map (\<lambda>j. bit (byte_of_bits bs) (7 - j)) [0..<8]) = length bs"
    using assms by simp
  fix i
  assume "i < length (map (\<lambda>j. bit (byte_of_bits bs) (7 - j)) [0..<8])"
  then have i: "i < 8" by simp
  then have "7 - (7 - i) = i" "7 - i < 8" by simp_all
  with i assms show "map (\<lambda>j. bit (byte_of_bits bs) (7 - j)) [0..<8] ! i = bs ! i"
    by (simp add: byte_of_bits_def bit_horner_sum_bit_word_iff rev_nth del: upt_Suc)
qed

lemma bits_of_pack_bits: "8 dvd length bs \<Longrightarrow> bits_of (pack_bits bs) = bs"
proof (induction bs rule: pack_bits.induct)
  case (1 bs)
  show ?case
  proof (cases "bs = []")
    case True
    then show ?thesis by (simp add: bits_of_def)
  next
    case False
    from "1.prems" obtain k where k: "length bs = 8 * k" ..
    with False have "k \<noteq> 0" by (cases k) auto
    with k have l: "8 \<le> length bs" by simp
    then have t: "length (take 8 bs) = 8" by simp
    from "1.prems" l have "8 dvd length (drop 8 bs)" by simp
    from "1.IH" [OF False this] have "bits_of (pack_bits (drop 8 bs)) = drop 8 bs" .
    with False bits_of_byte [OF t] show ?thesis
      by (subst pack_bits.simps) (simp add: bits_of_Cons del: upt_Suc pack_bits.simps)
  qed
qed

lemma signed12_bits:
  assumes "- 2048 \<le> sint (v :: long)" "sint v < 2048" "11 \<le> n" "n < 32"
  shows "bit v n = bit v 11"
proof -
  from assms(1,2) have "signed_take_bit 11 (sint v) = sint v"
    by (simp add: signed_take_bit_int_eq_self_iff)
  then have "bit (sint v) n = bit (signed_take_bit 11 (sint v)) n" by simp
  also have "\<dots> = bit (sint v) 11"
    using assms(3) by (simp add: bit_signed_take_bit_iff min_def)
  finally show ?thesis
    using assms(4) by (simp add: bit_sint_iff)
qed

lemma Reconstruct12:
  assumes "compressedSampleSizeInBits chan = 12" and "lsb_of chan = 0" and "in_range12 chan v"
  shows "Reconstruct chan (take_bit 12 v) = v"
proof -
  from assms(1,2) have w: "rawWidth_of chan = 12" by (simp add: lsb_of_def)
  then have rec: "Reconstruct chan (take_bit 12 v) =
      (if signedNumber chan \<and> bit (take_bit 12 v) 11
       then take_bit 12 v OR NOT (mask 12) else take_bit 12 v)"
    using assms(2) by (simp add: Reconstruct_eq Let_def)
  show ?thesis
  proof (cases "signedNumber chan")
    case True
    with assms(3) have r: "- 2048 \<le> sint v" "sint v < 2048" by (simp_all add: in_range12_def)
    show ?thesis
      unfolding rec
    proof (rule bit_eqI)
      fix n
      assume "possible_bit TYPE(long) n"
      then have n: "n < 32" by (simp add: possible_bit_def)
      show "bit (if signedNumber chan \<and> bit (take_bit 12 v) 11
                 then take_bit 12 v OR NOT (mask 12) else take_bit 12 v) n = bit v n"
      proof (cases "n < 12")
        case True
        then show ?thesis
          by (simp add: bit_or_iff bit_take_bit_iff bit_not_iff bit_mask_iff)
      next
        case False
        then have "bit v n = bit v 11" using signed12_bits [OF r _ n] by simp
        with False n \<open>signedNumber chan\<close> show ?thesis
          by (simp add: bit_or_iff bit_take_bit_iff bit_not_iff bit_mask_iff)
      qed
    qed
  next
    case False
    with assms(3) have "v < 2 ^ 12" by (simp add: in_range12_def)
    then have "take_bit 12 v = v"
      by (metis less_mask_eq take_bit_eq_mask)
    with False rec show ?thesis by simp
  qed
qed

lemma sample_at_12:
  assumes "compressedSampleSizeInBits chan = 12" and "lsb_of chan = 0" and "in_range12 chan v"
    and "take 12 (drop p (bits_of blk)) = bits_msb 12 v"
  shows "sample_at chan blk p = v"
  using assms(1,4) Reconstruct12 [OF assms(1,2,3)]
  by (simp add: sample_at_def width_of_def bits_word_msb)

lemma length_row_bits12 [simp]: "length (row_bits12 row) = 12 * length row"
  by (induction row) (simp_all add: row_bits12_def)

lemma drop_append_eq:
  assumes "drop p xs = ys @ zs"
  shows "take (length ys) (drop p xs) = ys" and "drop (p + length ys) xs = zs"
proof -
  show "take (length ys) (drop p xs) = ys" using assms by simp
  have "drop (p + length ys) xs = drop (length ys) (drop p xs)"
    by (simp add: add.commute)
  then show "drop (p + length ys) xs = zs" using assms by simp
qed

lemma row_at_12:
  assumes "\<forall>chan \<in> set chain. compressedSampleSizeInBits chan = 12 \<and> lsb_of chan = 0"
    and "list_all2 in_range12 chain row"
    and "drop p (bits_of blk) = row_bits12 row @ others"
  shows "row_at scale blk p chain = map2 scale chain row"
  using assms
proof (induction chain arbitrary: row p)
  case Nil
  then show ?case by simp
next
  case (Cons chan chain)
  from Cons.prems(2) obtain v vs where row: "row = v # vs"
    and v: "in_range12 chan v" and vs: "list_all2 in_range12 chain vs"
    by (auto simp: list_all2_Cons1)
  from Cons.prems(1) have c: "compressedSampleSizeInBits chan = 12" "lsb_of chan = 0"
    and cs: "\<forall>chan \<in> set chain. compressedSampleSizeInBits chan = 12 \<and> lsb_of chan = 0"
    by simp_all
  from Cons.prems(3) have d: "drop p (bits_of blk) = bits_msb 12 v @ (row_bits12 vs @ others)"
    by (simp add: row row_bits12_def)
  from drop_append_eq [OF d] have t: "take 12 (drop p (bits_of blk)) = bits_msb 12 v"
    and d': "drop (p + 12) (bits_of blk) = row_bits12 vs @ others"
    by simp_all
  have "width_of chan = 12" using c by (simp add: width_of_def)
  with sample_at_12 [OF c v t] Cons.IH [OF cs vs d'] show ?case
    by (simp add: row)
qed

lemma row_bits_12:
  "\<forall>chan \<in> set chain. compressedSampleSizeInBits chan = 12 \<and> lsb_of chan = 0
     \<Longrightarrow> row_bits chain = 12 * length chain"
  by (induction chain) (simp_all add: row_bits_def width_of_def)

lemma block_rows_12:
  assumes "\<forall>chan \<in> set chain. compressedSampleSizeInBits chan = 12 \<and> lsb_of chan = 0"
    and "\<forall>row \<in> set vals. list_all2 in_range12 chain row"
    and "drop p (bits_of blk) = concat (map row_bits12 vals) @ others"
  shows "block_rows scale chain blk p (length vals) = map (map2 scale chain) vals"
  using assms(2,3)
proof (induction vals arbitrary: p)
  case Nil
  show ?case by simp
next
  case (Cons row vals)
  from Cons.prems(1) have r: "list_all2 in_range12 chain row"
    and rs: "\<forall>row \<in> set vals. list_all2 in_range12 chain row" by simp_all
  from Cons.prems(2) have d: "drop p (bits_of blk) = row_bits12 row @ (concat (map row_bits12 vals) @ others)"
    by simp
  have l: "length (row_bits12 row) = row_bits chain"
    using list_all2_lengthD [OF r] row_bits_12 [OF assms(1)] by simp
  from drop_append_eq(2) [OF d] l
  have d': "drop (p + row_bits chain) (bits_of blk) = concat (map row_bits12 vals) @ others"
    by simp
  from row_at_12 [OF assms(1) r d] Cons.IH [OF rs d'] show ?case by simp
qed

lemma bits_of_take: "bits_of (take n xs) = take (8 * n) (bits_of xs)"
proof (induction xs arbitrary: n)
  case Nil
  show ?case by (simp add: bits_of_def)
next
  case (Cons x xs)
  show ?case
  proof (cases n)
    case 0
    then show ?thesis by (simp add: bits_of_def)
  next
    case (Suc k)
    then show ?thesis
      using Cons.IH [of k] by (simp add: bits_of_Cons del: upt_Suc)
  qed
qed

lemma bits_of_drop: "bits_of (drop n xs) = drop (8 * n) (bits_of xs)"
proof (induction xs arbitrary: n)
  case Nil
  show ?case by (simp add: bits_of_def)
next
  case (Cons x xs)
  show ?case
  proof (cases n)
    case 0
    then show ?thesis by simp
  next
    case (Suc k)
    then show ?thesis
      using Cons.IH [of k] by (simp add: bits_of_Cons del: upt_Suc)
  qed
qed

lemma length_concat_rows:
  assumes "\<forall>row \<in> set vals. length row = n"
  shows "length (concat (map row_bits12 vals)) = 12 * n * length vals"
  using assms by (induction vals) (simp_all add: algebra_simps)

lemma blocks_rows_12:
  assumes ch: "\<forall>chan \<in> set (channelInfoChain info). compressedSampleSizeInBits chan = 12 \<and> lsb_of chan = 0"
    and m: "unat (readBlockSize info) * (12 * length (channelInfoChain info))
              = 8 * unat (readBlockSizeInBytes info)"
    and "\<forall>row \<in> set vals. list_all2 in_range12 (channelInfoChain info) row"
    and "length vals = k * unat (readBlockSize info)"
    and "bits_of rawData = concat (map row_bits12 vals)"
  shows "blocks_rows scale info k rawData = map (map2 scale (channelInfoChain info)) vals"
  using assms(3,4,5)
proof (induction k arbitrary: rawData vals)
  case 0
  then show ?case by simp
next
  case (Suc k)
  let ?B = "unat (readBlockSizeInBytes info)" and ?m = "unat (readBlockSize info)"
  let ?chain = "channelInfoChain info"
  define vs1 where "vs1 = take ?m vals"
  define vs2 where "vs2 = drop ?m vals"
  have vals: "vals = vs1 @ vs2" by (simp add: vs1_def vs2_def)
  from Suc.prems(2) have l1: "length vs1 = ?m" and l2: "length vs2 = k * ?m"
    by (simp_all add: vs1_def vs2_def)
  from Suc.prems(1) have r1: "\<forall>row \<in> set vs1. list_all2 in_range12 ?chain row"
    and r2: "\<forall>row \<in> set vs2. list_all2 in_range12 ?chain row"
    by (simp_all add: vals)
  from r1 have "\<forall>row \<in> set vs1. length row = length ?chain"
    by (metis list_all2_lengthD)
  from length_concat_rows [OF this] l1 m
  have len1: "length (concat (map row_bits12 vs1)) = 8 * ?B" by (simp add: mult.commute mult.left_commute)
  from Suc.prems(3) have b: "bits_of rawData = concat (map row_bits12 vs1) @ concat (map row_bits12 vs2)"
    by (simp add: vals)
  have b1: "drop 0 (bits_of (take ?B rawData)) = concat (map row_bits12 vs1) @ []"
    using b len1 by (simp add: bits_of_take)
  have b2: "bits_of (drop ?B rawData) = concat (map row_bits12 vs2)"
    using b len1 by (simp add: bits_of_drop)
  from block_rows_12 [OF ch r1 b1] l1
  have "block_rows scale ?chain (take ?B rawData) 0 ?m = map (map2 scale ?chain) vs1"
    by simp
  with Suc.IH [OF r2 l2 b2] show ?case by (simp add: vals)
qed

lemma DecodeDataWithPacking_12_aux:
  assumes c: "consistent info"
    and ch: "\<forall>chan \<in> set (channelInfoChain info). compressedSampleSizeInBits chan = 12 \<and> lsb_of chan = 0"
    and r: "\<forall>row \<in> set vals. list_all2 in_range12 (channelInfoChain info) row"
    and d: "unat (readBlockSize info) dvd length vals"
  shows "DecodeDataWithPacking_with scale info (pack12 vals)
     = Inr (map (map2 scale (channelInfoChain info)) vals)"
proof -
  let ?B = "unat (readBlockSizeInBytes info)" and ?m = "unat (readBlockSize info)"
  let ?chain = "channelInfoChain info"
  let ?bits = "concat (map row_bits12 vals)"
  from c have B: "0 < ?B" and m0: "?m * row_bits ?chain = 8 * ?B"
    by (simp_all add: consistent_def word_greater_zero_iff unat_gt_0)
  from m0 have m: "?m * (12 * length ?chain) = 8 * ?B"
    by (simp add: row_bits_12 [OF ch])
  from d obtain k where k: "length vals = k * ?m" by (metis dvd_div_mult_self)
  from r have "\<forall>row \<in> set vals. length row = length ?chain"
    by (metis list_all2_lengthD)
  from length_concat_rows [OF this] k m
  have lb: "length ?bits = 8 * (k * ?B)" 
    by (simp add: algebra_simps)
  have p: "pack12 vals = pack_bits ?bits"
    by (simp add: pack12_def)
  have bits: "bits_of (pack12 vals) = ?bits"
    unfolding p by (rule bits_of_pack_bits) (simp add: lb)
  then have "8 * length (pack12 vals) = 8 * (k * ?B)"
    using lb by (metis length_bits_of)
  then have len: "length (pack12 vals) = k * ?B + 0" by simp
  have "PackedLoop scale info (pack12 vals) [] =
     Inr ([] @ blocks_rows scale info k (pack12 vals) @
          block_rows scale ?chain (drop (k * ?B) (pack12 vals)) 0 ((8 * 0 - 1) div row_bits ?chain))"
    by (rule PackedLoop_blocks [OF c len B])
  then show ?thesis
    by (simp add: DecodeDataWithPacking_with_def blocks_rows_12 [OF ch m r k bits])
qed

subsection \<open>Claims about the bit-packed decoder\<close>

text \<open>
  C5. For a channel whose stored width is at most its raw width, the raw width
  being between 1 and 31, whatever the packed decoder returns for the channel
  is obtained from the extracted value \<open>val\<close>, which is below 2 to the stored
  width, like this: \<open>val\<close> is shifted left by \<open>lsb\<close>, the raw width minus the
  stored width, so the \<open>lsb\<close> low bits of the result are zero; for a signed
  channel the bit tested is bit \<open>size + lsb - 1\<close> of the shifted value, and the
  mask that is or-ed in consists of the bits from \<open>size + lsb\<close> upwards. The
  integer handed to the scaling is therefore the two's-complement reading at
  width \<open>size + lsb\<close> of \<open>val * 2 ^ lsb\<close> for a signed channel and \<open>val * 2 ^ lsb\<close>
  for an unsigned one.
\<close>

theorem PackedSample_restores_raw_width:
  assumes "compressedSampleSizeInBits chan \<le> rawWidth_of chan"
    and "0 < rawWidth_of chan" and "rawWidth_of chan < 32"
    and "PackedSample blockBytes chan cur = Inr (v, cur')"
  shows "lsb_of chan = rawWidth_of chan - compressedSampleSizeInBits chan \<and>
    (\<exists>val. ExtractBits blockBytes (unat (compressedSampleSizeInBits chan)) cur 0 = Inr (val, cur') \<and>
      val < 2 ^ unat (compressedSampleSizeInBits chan) \<and>
      v = (let x = push_bit (unat (lsb_of chan)) val;
               realsize = unat (compressedSampleSizeInBits chan + lsb_of chan)
           in if signedNumber chan \<and> bit x (realsize - 1) then x OR NOT (mask realsize) else x) \<and>
      take_bit (unat (lsb_of chan)) v = 0 \<and>
      sint v = (if signedNumber chan
                then signed_take_bit (unat (compressedSampleSizeInBits chan + lsb_of chan) - 1)
                       (uint val * 2 ^ unat (lsb_of chan))
                else uint val * 2 ^ unat (lsb_of chan)))"
  using PackedSample_shift_and_sign [OF assms] by (simp add: lsb_of_def)

theorem PackedSample_restores_raw_width_witness:
  "PackedSample 2 c5_chan c5_cur
     = Inr (0xFFFFABC0, \<lparr>ch = 0xC0, bitPos = 4, byteCount = 2, unread = []\<rparr>)
   \<and> lsb_of c5_chan = 4
   \<and> take_bit 4 (0xFFFFABC0 :: long) = 0
   \<and> sint (0xFFFFABC0 :: long) = signed_take_bit 15 (0xABC * 2 ^ 4)"
proof -
  let ?cur' = "\<lparr>ch = 0xC0, bitPos = 4, byteCount = 2, unread = []\<rparr>"
  have h1: "compressedSampleSizeInBits c5_chan \<le> rawWidth_of c5_chan" by code_simp
  have h2: "0 < rawWidth_of c5_chan" by code_simp
  have h3: "rawWidth_of c5_chan < 32" by code_simp
  have h4: "PackedSample 2 c5_chan c5_cur = Inr (0xFFFFABC0, ?cur')" by code_simp
  have e: "ExtractBits 2 (unat (compressedSampleSizeInBits c5_chan)) c5_cur 0 = Inr (0xABC, ?cur')"
    by code_simp
  have l: "lsb_of c5_chan = 4" "unat (lsb_of c5_chan) = 4"
    "unat (compressedSampleSizeInBits c5_chan + lsb_of c5_chan) - 1 = 15" "signedNumber c5_chan"
    by code_simp+
  from PackedSample_restores_raw_width [OF h1 h2 h3 h4] e l h4 show ?thesis by simp
qed

text \<open>
  C1. Let the header agree with itself (\<open>consistent\<close>), let every channel have
  the stored width 12 and \<open>lsb = 0\<close>, and let the buffer consist of whole blocks
  of 12-bit raw values, signed or unsigned as the channels say, bit-packed most
  significant bit first without padding. Then the packed decoder returns one
  row for every packed row, and the integer it hands to the scaling of a
  channel is exactly the value that was packed.
\<close>

theorem DecodeDataWithPacking_unpacks_pack12:
  assumes "consistent info"
    and "\<forall>chan \<in> set (channelInfoChain info).
           compressedSampleSizeInBits chan = 12 \<and> lsb_of chan = 0"
    and "\<forall>row \<in> set vals. list_all2 in_range12 (channelInfoChain info) row"
    and "unat (readBlockSize info) dvd length vals"
  shows "DecodeDataWithPacking_with scale info (pack12 vals)
     = Inr (map (map2 scale (channelInfoChain info)) vals)"
  using assms by (rule DecodeDataWithPacking_12_aux)

theorem DecodeDataWithPacking_unpacks_pack12_witness:
  "pack12 c1_vals = [0x80, 0x0A, 0xBC, 0x7F, 0xF0, 0x01]
   \<and> DecodeDataWithPacking_with (\<lambda>chan val. sint val) c1_info [0x80, 0x0A, 0xBC, 0x7F, 0xF0, 0x01]
       = Inr [[- 2048, 2748], [2047, 1]]"
proof -
  have h1: "consistent c1_info" by code_simp
  have h2: "\<forall>chan \<in> set (channelInfoChain c1_info).
      compressedSampleSizeInBits chan = 12 \<and> lsb_of chan = 0" by code_simp
  have h3: "\<forall>row \<in> set c1_vals. list_all2 in_range12 (channelInfoChain c1_info) row"
    by code_simp
  have h4: "unat (readBlockSize c1_info) dvd length c1_vals" by code_simp
  have p: "pack12 c1_vals = [0x80, 0x0A, 0xBC, 0x7F, 0xF0, 0x01]" by code_simp
  have r: "map (map2 (\<lambda>chan val. sint val) (channelInfoChain c1_info)) c1_vals
      = [[- 2048, 2748], [2047, 1]]" by code_simp
  from DecodeDataWithPacking_unpacks_pack12 [OF h1 h2 h3 h4, of "\<lambda>chan val. sint val"]
  show ?thesis unfolding p r by simp
qed

text \<open>
  C3, as stated, fails in both decoders. In the packed path a buffer of one
  complete block of 6 bytes (four 12-bit samples) and 3 more bytes yields 5
  samples, not \<open>9 div 6 * 4 = 4\<close>: the first sample of the partial block is kept,
  the second is dropped although all its bits are there. In the unpacked path a
  buffer of one complete block of 4 bytes (two 16-bit samples) and 1 more byte
  yields 4 samples, not \<open>5 div 4 * 2 = 2\<close>: the decoder does not stop, it
  completes the block from the bytes it has.
\<close>

theorem truncated_block_counterexample:
  "DecodeDataWithPacking_with (\<lambda>chan val. sint val) c3_info c3_raw
     = Inr [[1], [2], [3], [4], [5]]
   \<and> length c3_raw div unat (readBlockSizeInBytes c3_info) * unat (readBlockSize c3_info) = 4
   \<and> DecodeDataWithoutPacking_with (\<lambda>chan val. sint val) c3u_info c3u_raw
     = Some (Inr [[1], [2], [3], [0]])
   \<and> length c3u_raw div unat (readBlockSizeInBytes c3u_info) * unat (readBlockSize c3u_info) = 2"
  by code_simp

text \<open>
  C3, amended, for the packed path: when the header agrees with itself, a
  buffer that ends inside a block is not an error. The decoder returns the
  samples of the complete blocks and, of the partial block of \<open>r\<close> bytes, the
  samples that end before the last bit present: \<open>(8 * r - 1) div row_bits\<close> of
  them, where \<open>row_bits\<close> is the number of bits of one sample of all channels.
\<close>

theorem DecodeDataWithPacking_truncated:
  assumes "consistent info"
  shows "\<exists>rows. DecodeDataWithPacking_with scale info rawData = Inr rows \<and>
     length rows =
       (length rawData div unat (readBlockSizeInBytes info)) * unat (readBlockSize info)
       + (8 * (length rawData mod unat (readBlockSizeInBytes info)) - 1)
           div row_bits (channelInfoChain info)"
  using assms by (rule DecodeDataWithPacking_count)

theorem DecodeDataWithPacking_truncated_witness:
  "\<exists>rows. DecodeDataWithPacking_with Scale c3_info c3_raw = Inr rows \<and> length rows = 5"
proof -
  have h: "consistent c3_info" by code_simp
  have n: "(length c3_raw div unat (readBlockSizeInBytes c3_info)) * unat (readBlockSize c3_info)
       + (8 * (length c3_raw mod unat (readBlockSizeInBytes c3_info)) - 1)
           div row_bits (channelInfoChain c3_info) = 5" by code_simp
  from DecodeDataWithPacking_truncated [OF h, of Scale c3_raw] show ?thesis
    unfolding n .
qed

section \<open>The header parser\<close>

text \<open>
  \<^verbatim>\<open>ParseDataFileHeader\<close> (decoder, lines 146 to 220) reads the text header with
  a sequence of \<^verbatim>\<open>fscanf\<close> calls. Its behaviour on malformed files is decided by
  what \<^verbatim>\<open>fscanf\<close> does on a mismatch, so the part of \<^verbatim>\<open>fscanf\<close> that the formats
  of the source use is modelled first.

  Conventions of this section.
  \<^item> The file, opened with \<^verbatim>\<open>"r"\<close>, is the list of the characters that remain to
    be read; \<open>None\<close> stands for a file that cannot be opened.
  \<^item> A format is a sequence of directives: white space, an ordinary character,
    \<^verbatim>\<open>%s\<close> or \<^verbatim>\<open>%ld\<close>. White space in the format skips any amount of white space
    in the input, also none. An ordinary character must be the next character
    of the input. \<^verbatim>\<open>%s\<close> and \<^verbatim>\<open>%ld\<close> first skip white space, newlines included, and
    then read a maximal run of non-space characters, or an optional sign and a
    maximal run of decimal digits.
  \<^item> The return value is the number of items assigned, or \<^verbatim>\<open>EOF\<close> when the input
    ends before the first conversion has completed. A character that does not
    match is not an end of input: the call returns the number of items assigned
    so far, which is not negative, and leaves its argument as it was.
  \<^item> The value scanned by \<^verbatim>\<open>%ld\<close> is stored in a \<^verbatim>\<open>uInt32\<close>; it is taken modulo
    \<open>2 ^ 32\<close>. Tokens are taken to fit the buffers they are scanned into.
\<close>

subsection \<open>Formatted input\<close>

definition isspace :: "char \<Rightarrow> bool" where
  "isspace c \<longleftrightarrow> c \<in> set [CHR '' '', CHR 0x09, CHR 0x0A, CHR 0x0B, CHR 0x0C, CHR 0x0D]"

definition isdigit :: "char \<Rightarrow> bool" where
  "isdigit c \<longleftrightarrow> c \<in> set ''0123456789''"

datatype directive = Space | Lit char | ConvS | ConvLd

function directives :: "string \<Rightarrow> directive list" where
  "directives fmt =
     (case fmt of
        [] \<Rightarrow> []
      | c # rest \<Rightarrow>
          if isspace c then Space # directives rest
          else if c = CHR ''%'' \<and> take 1 rest = ''s'' then ConvS # directives (drop 1 rest)
          else if c = CHR ''%'' \<and> take 2 rest = ''ld'' then ConvLd # directives (drop 2 rest)
          else Lit c # directives rest)"
  by pat_completeness auto
termination
  by (relation "measure length") auto

datatype item = Str string | Num int

definition EOF :: int where
  "EOF = - 1"

text \<open>The value of a run of decimal digits.\<close>

definition dec_value :: "string \<Rightarrow> int" where
  "dec_value ds = foldl (\<lambda>a c. 10 * a + (of_char c - 48)) 0 ds"

text \<open>The return value when the input ends.\<close>

definition stopped :: "item list \<Rightarrow> int" where
  "stopped items = (if items = [] then EOF else int (length items))"

text \<open>
  \<open>scan ds inp items\<close> runs the directives \<open>ds\<close> on the input \<open>inp\<close>, \<open>items\<close>
  being the items assigned so far; it yields the return value, the items
  assigned and the input left.
\<close>

fun scan :: "directive list \<Rightarrow> string \<Rightarrow> item list \<Rightarrow> int \<times> item list \<times> string" where
  "scan [] inp items = (int (length items), items, inp)"
| "scan (Space # ds) inp items = scan ds (dropWhile isspace inp) items"
| "scan (Lit c # ds) inp items =
     (case inp of
        [] \<Rightarrow> (stopped items, items, inp)
      | x # xs \<Rightarrow> if x = c then scan ds xs items else (int (length items), items, inp))"
| "scan (ConvS # ds) inp items =
     (case dropWhile isspace inp of
        [] \<Rightarrow> (stopped items, items, [])
      | x # xs \<Rightarrow>
          scan ds (dropWhile (\<lambda>c. \<not> isspace c) (x # xs))
            (items @ [Str (takeWhile (\<lambda>c. \<not> isspace c) (x # xs))]))"
| "scan (ConvLd # ds) inp items =
     (case dropWhile isspace inp of
        [] \<Rightarrow> (stopped items, items, [])
      | x # xs \<Rightarrow>
          let body = (if x = CHR ''-'' \<or> x = CHR ''+'' then xs else x # xs);
              digits = takeWhile isdigit body
          in if digits = [] then (int (length items), items, body)
             else scan ds (dropWhile isdigit body)
                    (items @ [Num (if x = CHR ''-'' then - dec_value digits else dec_value digits)]))"

text \<open>
  The three shapes of call in the source: no conversion, one \<^verbatim>\<open>%s\<close>, one \<^verbatim>\<open>%ld\<close>.
  \<open>old\<close> is the content of the argument before the call, which stays when
  nothing is assigned.
\<close>

definition fscanf_0 :: "string \<Rightarrow> string \<Rightarrow> int \<times> string" where
  "fscanf_0 fmt inp = (case scan (directives fmt) inp [] of (ret, items, inp') \<Rightarrow> (ret, inp'))"

definition fscanf_s :: "string \<Rightarrow> string \<Rightarrow> string \<Rightarrow> int \<times> string \<times> string" where
  "fscanf_s fmt inp old =
     (case scan (directives fmt) inp [] of
        (ret, [Str s], inp') \<Rightarrow> (ret, s, inp')
      | (ret, items, inp') \<Rightarrow> (ret, old, inp'))"

definition fscanf_ld :: "string \<Rightarrow> string \<Rightarrow> uInt32 \<Rightarrow> int \<times> uInt32 \<times> string" where
  "fscanf_ld fmt inp old =
     (case scan (directives fmt) inp [] of
        (ret, [Num n], inp') \<Rightarrow> (ret, word_of_int n, inp')
      | (ret, items, inp') \<Rightarrow> (ret, old, inp'))"

subsection \<open>\<^verbatim>\<open>ParseDataFileHeader\<close>\<close>

text \<open>
  Each call of the source is tested with \<^verbatim>\<open>fscanf(...)<0\<close> in a chain of \<^verbatim>\<open>||\<close>:
  \<open>proceed ret k\<close> returns \<^verbatim>\<open>NULL\<close> (\<open>None\<close>) when the return value is negative and
  goes on with \<open>k\<close> otherwise.

  \<open>ParseTask\<close> is the first chain (lines 156 to 166). \<open>prev\<close> is the content of
  the \<^verbatim>\<open>static DataFileInfo info\<close> on entry; \<^verbatim>\<open>numTasks\<close> is not used afterwards.
\<close>

definition proceed :: "int \<Rightarrow> 'a option \<Rightarrow> 'a option" where
  "proceed ret k = (if ret < 0 then None else k)"

definition ParseTask :: "DataFileInfo \<Rightarrow> string \<Rightarrow> (DataFileInfo \<times> string) option" where
  "ParseTask prev inp0 =
     (case fscanf_0 ''[DAQCompressedBinaryFile]\<newline>'' inp0 of (r1, inp1) \<Rightarrow> proceed r1
     (case fscanf_s ''Version=%s\<newline>'' inp1 (version prev) of (r2, ver, inp2) \<Rightarrow> proceed r2
     (case fscanf_ld ''HeaderSize=%ld\<newline>'' inp2 (headerSize prev) of (r3, hs, inp3) \<Rightarrow> proceed r3
     (case fscanf_ld ''NumberOfTasks=%ld\<newline>'' inp3 0 of (r4, numTasks, inp4) \<Rightarrow> proceed r4
     (case fscanf_0 ''[Task0]\<newline>'' inp4 of (r5, inp5) \<Rightarrow> proceed r5
     (case fscanf_s ''Name=%s\<newline>'' inp5 (taskName prev) of (r6, tn, inp6) \<Rightarrow> proceed r6
     (case fscanf_ld ''NumberOfChannels=%ld\<newline>'' inp6 (numberOfChannels prev) of (r7, nc, inp7) \<Rightarrow> proceed r7
     (case fscanf_ld ''ReadBlockSize=%ld\<newline>'' inp7 (readBlockSize prev) of (r8, rbs, inp8) \<Rightarrow> proceed r8
     (case fscanf_ld ''ReadBlockSizeInBytes=%ld\<newline>'' inp8 (readBlockSizeInBytes prev) of (r9, rbb, inp9) \<Rightarrow> proceed r9
     (Some (\<lparr>version = ver, headerSize = hs, taskName = tn, numberOfChannels = nc,
              readBlockSize = rbs, readBlockSizeInBytes = rbb, channelInfoChain = []\<rparr>, inp9)))))))))))"

text \<open>
  The local variables of \<^verbatim>\<open>ParseDataFileHeader\<close> that are scanned into and live
  across the iterations of the channel loop. They are not initialised by the
  source, so their content on entry is a parameter.
\<close>

record Locals =
  channelNum :: uInt32
  justificationBuff :: string
  signedBuff :: string
  compBuff :: string
  byteOrderBuff :: string
  coeffBuff :: string

text \<open>
  The tokens that the loop \<^verbatim>\<open>strtok(coeffBuff,";")\<close>, \<^verbatim>\<open>strtok(NULL,";")\<close> returns
  (lines 201 to 209).
\<close>

function strtok_all :: "string \<Rightarrow> string list" where
  "strtok_all s =
     (case dropWhile (\<lambda>c. c = CHR '';'') s of
        [] \<Rightarrow> []
      | x # xs \<Rightarrow> takeWhile (\<lambda>c. c \<noteq> CHR '';'') (x # xs)
                 # strtok_all (dropWhile (\<lambda>c. c \<noteq> CHR '';'') xs))"
  by pat_completeness auto
termination
proof (relation "measure length")
  show "wf (measure length)" by simp
next
  fix s :: string and x xs
  assume "dropWhile (\<lambda>c. c = CHR '';'') s = x # xs"
  then have "length (x # xs) \<le> length s"
    by (metis length_dropWhile_le)
  moreover have "length (dropWhile (\<lambda>c. c \<noteq> CHR '';'') xs) \<le> length xs"
    by (rule length_dropWhile_le)
  ultimately show "(dropWhile (\<lambda>c. c \<noteq> CHR '';'') xs, s) \<in> measure length" by simp
qed

text \<open>
  The channel loop (lines 170 to 210), with \<open>n\<close> iterations to go, loop counter
  \<open>i\<close> and the chain built so far. \<open>fresh\<close> is the content of a \<^verbatim>\<open>ChannelInfo\<close> as
  \<^verbatim>\<open>malloc\<close> returns it, \<open>sscanf_le\<close> the value that \<^verbatim>\<open>sscanf(coeffStr,"%le",...)\<close>
  leaves in a new \<^verbatim>\<open>ScaleCoeff\<close> for a token. After the loop over the tokens
  \<^verbatim>\<open>coeffBuff\<close> holds its first token, \<^verbatim>\<open>strtok\<close> having put a terminator at the
  first semicolon.
\<close>

fun ParseChannels ::
  "(string \<Rightarrow> real) \<Rightarrow> ChannelInfo \<Rightarrow> nat \<Rightarrow> uInt32 \<Rightarrow> Locals \<Rightarrow> string \<Rightarrow> ChannelInfo list
     \<Rightarrow> (ChannelInfo list \<times> Locals \<times> string) option" where
  "ParseChannels sscanf_le fresh 0 i loc inp0 chain = Some (chain, loc, inp0)"
| "ParseChannels sscanf_le fresh (Suc n) i loc inp0 chain =
     (case fscanf_ld ''[Task0Channel%ld]\<newline>'' inp0 (channelNum loc) of (r1, cn, inp1) \<Rightarrow> proceed r1
     (case fscanf_s ''Name=%s\<newline>'' inp1 (name fresh) of (r2, nm, inp2) \<Rightarrow> proceed r2
     (case fscanf_ld ''RawSampleResolution=%ld\<newline>'' inp2 (rawSampleResolution fresh) of (r3, res, inp3) \<Rightarrow> proceed r3
     (case fscanf_ld ''RawSampleSizeInBits=%ld\<newline>'' inp3 (rawSampleSizeInBits fresh) of (r4, sz, inp4) \<Rightarrow> proceed r4
     (case fscanf_s ''RawSampleJustification=%s\<newline>'' inp4 (justificationBuff loc) of (r5, jb, inp5) \<Rightarrow> proceed r5
     (case fscanf_s ''SignedNumber=%s\<newline>'' inp5 (signedBuff loc) of (r6, sb, inp6) \<Rightarrow> proceed r6
     (case fscanf_s ''CompressionType=%s\<newline>'' inp6 (compBuff loc) of (r7, cb, inp7) \<Rightarrow> proceed r7
     (case fscanf_ld ''CompressedSampleSizeInBits=%ld\<newline>'' inp7 (compressedSampleSizeInBits fresh) of (r8, csz, inp8) \<Rightarrow> proceed r8
     (case fscanf_s ''CompressionByteOrder=%s\<newline>'' inp8 (byteOrderBuff loc) of (r9, bb, inp9) \<Rightarrow> proceed r9
     (case fscanf_s ''PolynomialScalingCoeffs=%s\<newline>'' inp9 (coeffBuff loc) of (r10, cf, inp10) \<Rightarrow> proceed r10
     (if cn \<noteq> i \<or> cf = [] \<or> hd cf = CHR '';'' then None
      else ParseChannels sscanf_le fresh n (i + 1)
             \<lparr>channelNum = cn, justificationBuff = jb, signedBuff = sb, compBuff = cb,
              byteOrderBuff = bb, coeffBuff = takeWhile (\<lambda>c. c \<noteq> CHR '';'') cf\<rparr>
             inp10
             (chain @
              [\<lparr>name = nm, rawSampleResolution = res, rawSampleSizeInBits = sz,
                rawSampleJustification =
                  (if jb = ''Left'' then DAQmx_Val_LeftJustified else DAQmx_Val_RightJustified),
                signedNumber = (sb = ''TRUE''),
                compressionType =
                  (if cb = ''LosslessPacking'' then DAQmx_Val_LosslessPacking
                   else if cb = ''LossyLSBRemoval'' then DAQmx_Val_LossyLSBRemoval
                   else DAQmx_Val_None),
                compressedSampleSizeInBits = csz,
                compressionByteOrder = (if bb = ''LittleEndian'' then LittleEndian else BigEndian),
                polynomialScalingCoeffChain = map sscanf_le (strtok_all cf)\<rparr>]))))))))))))"

text \<open>The whole function: \<open>None\<close> is the \<^verbatim>\<open>NULL\<close> it returns for a rejected file.\<close>

definition ParseDataFileHeader ::
  "(string \<Rightarrow> real) \<Rightarrow> DataFileInfo \<Rightarrow> Locals \<Rightarrow> ChannelInfo \<Rightarrow> string option
     \<Rightarrow> DataFileInfo option" where
  "ParseDataFileHeader sscanf_le prev loc fresh file =
     (case file of
        None \<Rightarrow> None
      | Some content \<Rightarrow>
          (case ParseTask prev content of
             None \<Rightarrow> None
           | Some (info, inp) \<Rightarrow>
               if version info \<noteq> ''1.0.0'' \<or> numberOfChannels info < 1 then None
               else
                 (case ParseChannels sscanf_le fresh (unat (numberOfChannels info)) 0 loc inp [] of
                    None \<Rightarrow> None
                  | Some (chain, loc', inp1) \<Rightarrow>
                      (case fscanf_0 ''[BinaryData]\<newline>'' inp1 of (r1, inp2) \<Rightarrow> proceed r1
                      (case fscanf_0 ''Begin=Here\<newline>'' inp2 of (r2, inp3) \<Rightarrow> proceed r2
                      (Some (info\<lparr>channelInfoChain := chain\<rparr>)))))))"

subsection \<open>Example headers\<close>

text \<open>
  Headers as the encoder writes them for one task, with the version, the
  channel count, the channel index and the coefficient field left open.
\<close>

definition header_text :: "string \<Rightarrow> string \<Rightarrow> string" where
  "header_text ver nchan = ''[DAQCompressedBinaryFile]\<newline>Version='' @ ver @ ''\<newline>HeaderSize=0000000400\<newline>NumberOfTasks=1\<newline>[Task0]\<newline>Name=_unnamedTask<0>\<newline>NumberOfChannels='' @ nchan @ ''\<newline>ReadBlockSize=1000\<newline>ReadBlockSizeInBytes=2000\<newline>''"

definition chan_text :: "string \<Rightarrow> string \<Rightarrow> string" where
  "chan_text idx coeffs = ''[Task0Channel'' @ idx @ '']\<newline>Name=Dev1/ai0\<newline>RawSampleResolution=16\<newline>RawSampleSizeInBits=16\<newline>RawSampleJustification=Right\<newline>SignedNumber=TRUE\<newline>CompressionType=None\<newline>CompressedSampleSizeInBits=16\<newline>CompressionByteOrder=LittleEndian\<newline>PolynomialScalingCoeffs='' @ coeffs @ ''\<newline>''"

definition footer_text :: string where
  "footer_text = ''[BinaryData]\<newline>Begin=Here\<newline>''"

text \<open>The header and the one channel that the example headers describe.\<close>

definition parsed_chan :: "real list \<Rightarrow> ChannelInfo" where
  "parsed_chan coeffs =
     \<lparr>name = ''Dev1/ai0'', rawSampleResolution = 16, rawSampleSizeInBits = 16,
      rawSampleJustification = DAQmx_Val_RightJustified, signedNumber = True,
      compressionType = DAQmx_Val_None, compressedSampleSizeInBits = 16,
      compressionByteOrder = LittleEndian, polynomialScalingCoeffChain = coeffs\<rparr>"

definition parsed_info :: "ChannelInfo list \<Rightarrow> DataFileInfo" where
  "parsed_info chain =
     \<lparr>version = ''1.0.0'', headerSize = 400, taskName = ''_unnamedTask<0>'',
      numberOfChannels = of_nat (length chain), readBlockSize = 1000,
      readBlockSizeInBytes = 2000, channelInfoChain = chain\<rparr>"

text \<open>
  Headers of two channels, for the manifests \<open>c6_info\<close> and \<open>c10_info\<close> of the
  examples above, and the value of \<^verbatim>\<open>sscanf\<close> on the two coefficient tokens they
  use.
\<close>

definition entry_text :: "string \<Rightarrow> string \<Rightarrow> string \<Rightarrow> string \<Rightarrow> string \<Rightarrow> string" where
  "entry_text idx nm bits ctype stored = ''[Task0Channel'' @ idx @ '']\<newline>Name='' @ nm @ ''\<newline>RawSampleResolution='' @ bits @ ''\<newline>RawSampleSizeInBits='' @ bits @ ''\<newline>RawSampleJustification=Right\<newline>SignedNumber=TRUE\<newline>CompressionType='' @ ctype @ ''\<newline>CompressedSampleSizeInBits='' @ stored @ ''\<newline>CompressionByteOrder=LittleEndian\<newline>PolynomialScalingCoeffs=0.0E+00;1.0E+00;\<newline>''"

definition task_text :: "string \<Rightarrow> string \<Rightarrow> string \<Rightarrow> string" where
  "task_text hsize block bytes = ''[DAQCompressedBinaryFile]\<newline>Version=1.0.0\<newline>HeaderSize='' @ hsize @ ''\<newline>NumberOfTasks=1\<newline>[Task0]\<newline>Name=_unnamedTask<0>\<newline>NumberOfChannels=2\<newline>ReadBlockSize='' @ block @ ''\<newline>ReadBlockSizeInBytes='' @ bytes @ ''\<newline>''"

definition c6_header :: string where
  "c6_header = task_text ''0000000700'' ''1'' ''3''
     @ entry_text ''0'' ''Dev1/ai0'' ''16'' ''None'' ''16''
     @ entry_text ''1'' ''Dev2/ai0'' ''8'' ''LossyLSBRemoval'' ''6'' @ footer_text"

definition c10_header :: string where
  "c10_header = task_text ''0000000400'' ''0'' ''4''
     @ entry_text ''0'' ''Dev1/ai0'' ''16'' ''None'' ''16''
     @ entry_text ''1'' ''Dev1/ai1'' ''16'' ''None'' ''16'' @ footer_text"

definition c_sscanf_le :: "string \<Rightarrow> real" where
  "c_sscanf_le token = (if token = ''1.0E+00'' then 1 else 0)"

text \<open>A state of the parser's variables on entry, for evaluation.\<close>

definition c7_locals :: Locals where
  "c7_locals = \<lparr>channelNum = 0, justificationBuff = [], signedBuff = [], compBuff = [],
     byteOrderBuff = [], coeffBuff = []\<rparr>"

subsection \<open>What an accepted header satisfies\<close>

lemma directives_Nil: "directives [] = []"
  by simp

lemma directives_Cons:
  "directives (c # rest) =
     (if isspace c then Space # directives rest
      else if c = CHR ''%'' \<and> take 1 rest = ''s'' then ConvS # directives (drop 1 rest)
      else if c = CHR ''%'' \<and> take 2 rest = ''ld'' then ConvLd # directives (drop 2 rest)
      else Lit c # directives rest)"
  by (subst directives.simps) simp

lemma ParseChannels_pos:
  "0 < n \<Longrightarrow> ParseChannels f fresh n i loc inp chain
     = ParseChannels f fresh (Suc (n - 1)) i loc inp chain"
  by simp

lemma ParseChannels_length:
  "ParseChannels f fresh n i loc inp chain = Some (chain', loc', inp')
     \<Longrightarrow> length chain' = length chain + n"
proof (induction n arbitrary: i loc inp chain)
  case 0
  then show ?case by simp
next
  case (Suc n)
  from Suc.prems obtain loc1 inp1 c where
    "ParseChannels f fresh n (i + 1) loc1 inp1 (chain @ [c]) = Some (chain', loc', inp')"
    by (auto simp: proceed_def split: prod.splits if_splits)
  from Suc.IH [OF this] show ?case by simp
qed

text \<open>
  The tests of lines 167 and 191 do what they say on the values scanned: an
  accepted header has version \<^verbatim>\<open>1.0.0\<close>, a channel count of at least one and as
  many channel entries as it declares.
\<close>

lemma ParseDataFileHeader_accepted:
  assumes "ParseDataFileHeader f prev loc fresh file = Some info"
  shows "version info = ''1.0.0'' \<and> numberOfChannels info \<noteq> 0 \<and>
     length (channelInfoChain info) = unat (numberOfChannels info)"
proof -
  from assms obtain content info0 inp chain loc' inp1 where
    t: "ParseTask prev content = Some (info0, inp)"
    and v: "version info0 = ''1.0.0''" "\<not> numberOfChannels info0 < 1"
    and c: "ParseChannels f fresh (unat (numberOfChannels info0)) 0 loc inp [] = Some (chain, loc', inp1)"
    and i: "info = info0\<lparr>channelInfoChain := chain\<rparr>"
    by (auto simp: ParseDataFileHeader_def proceed_def split: option.splits prod.splits if_splits)
  from ParseChannels_length [OF c] v i show ?thesis
    by (simp add: not_less)
qed

subsection \<open>The parser on the example headers\<close>

lemmas scan_eval = isspace_def isdigit_def directives_Nil directives_Cons fscanf_0_def fscanf_s_def
  fscanf_ld_def proceed_def stopped_def EOF_def dec_value_def Let_def

lemmas parse_eval = ParseDataFileHeader_def ParseTask_def header_text_def chan_text_def
  footer_text_def parsed_info_def parsed_chan_def scan_eval

text \<open>
  A well-formed header is accepted, whatever follows it; the coefficient field
  is split into its tokens.
\<close>

lemma well_formed_header_accepted:
  "ParseDataFileHeader f prev loc fresh
     (Some (header_text ''1.0.0'' ''1'' @ chan_text ''0'' ''0.0E+00;1.0E+00;'' @ footer_text @ rawData))
   = Some (parsed_info [parsed_chan [f ''0.0E+00'', f ''1.0E+00'']])"
  by (simp add: parse_eval)

text \<open>
  Four of the five cases of C7 are rejected as the claim says: another
  version, a channel count of zero, a gap in the channel indices, and a
  coefficient field that begins with a semicolon.
\<close>

lemma other_version_rejected:
  "ParseDataFileHeader f prev loc fresh
     (Some (header_text ''2.0.0'' ''1'' @ chan_text ''0'' ''0.0E+00;1.0E+00;'' @ footer_text @ rawData))
   = None"
  by (simp add: parse_eval)

lemma zero_channels_rejected:
  "ParseDataFileHeader f prev loc fresh (Some (header_text ''1.0.0'' ''0'' @ footer_text @ rawData))
   = None"
  by (simp add: parse_eval)

lemma index_gap_rejected:
  "ParseDataFileHeader f prev loc fresh
     (Some (header_text ''1.0.0'' ''2'' @ chan_text ''0'' ''0.0E+00;1.0E+00;''
        @ chan_text ''2'' ''0.0E+00;1.0E+00;'' @ footer_text @ rawData)) = None"
  by (simp add: parse_eval ParseChannels_pos)

lemma leading_semicolon_rejected:
  "ParseDataFileHeader f prev loc fresh
     (Some (header_text ''1.0.0'' ''1'' @ chan_text ''0'' '';1.0E+00;'' @ footer_text @ rawData))
   = None"
  by (simp add: parse_eval)

text \<open>
  The manifests of the examples about the decoders are what the parser returns
  for a file: the one with channels of two formats, and the one with
  \<^verbatim>\<open>ReadBlockSize=0\<close>.
\<close>

lemma mixed_formats_header_accepted:
  "ParseDataFileHeader c_sscanf_le prev loc fresh (Some (c6_header @ rawData)) = Some c6_info"
  by (simp add: ParseDataFileHeader_def ParseTask_def c6_header_def task_text_def entry_text_def
      footer_text_def scan_eval ParseChannels_pos c_sscanf_le_def c6_info_def c9_chan_def c2_chan_def)

lemma zero_block_size_header_accepted:
  "ParseDataFileHeader c_sscanf_le prev loc fresh (Some (c10_header @ rawData)) = Some c10_info"
  by (simp add: ParseDataFileHeader_def ParseTask_def c10_header_def task_text_def entry_text_def
      footer_text_def scan_eval ParseChannels_pos c_sscanf_le_def c10_info_def c9_info_def c9_chan_def)

subsection \<open>Claim about the parser\<close>

text \<open>
  C7 says that the parser rejects every file whose version is not \<^verbatim>\<open>1.0.0\<close>,
  whose channel count is below 1, whose channel indices do not count up from
  0, or whose coefficient field is empty or begins with a semicolon. The last
  but one case fails. A header whose only channel has the empty field
  \<^verbatim>\<open>PolynomialScalingCoeffs=\<close> is accepted: \<^verbatim>\<open>%s\<close> skips the newline that ends the
  line and takes the next word of the file, \<^verbatim>\<open>[BinaryData]\<close>, as the coefficient
  field, so that the test \<^verbatim>\<open>*coeffBuff=='\0'\<close> of line 191 does not see an empty
  buffer. The two calls that should read the lines \<^verbatim>\<open>[BinaryData]\<close> and
  \<^verbatim>\<open>Begin=Here\<close> then meet a character that does not match and return 0, which
  is not below 0. The manifest returned has one scaling coefficient, the one
  that \<^verbatim>\<open>sscanf\<close> leaves for the token \<^verbatim>\<open>[BinaryData]\<close>. This holds for every
  previous content of the variables and whatever follows the header.
\<close>

theorem empty_coefficient_field_accepted:
  "ParseDataFileHeader f prev loc fresh
     (Some (header_text ''1.0.0'' ''1'' @ chan_text ''0'' [] @ footer_text @ rawData))
   = Some (parsed_info [parsed_chan [f ''[BinaryData]'']])"
  by (simp add: parse_eval)

theorem empty_coefficient_field_accepted_witness:
  "ParseDataFileHeader (\<lambda>token. 0) c9_info c7_locals c9_chan
     (Some (header_text ''1.0.0'' ''1'' @ chan_text ''0'' [] @ footer_text @ [CHR 0x01, CHR 0x00]))
   = Some (parsed_info [parsed_chan [0]])"
  by (rule empty_coefficient_field_accepted)

section \<open>The header written by the encoder\<close>

text \<open>
  \<^verbatim>\<open>CreateDataFileHeader\<close> (encoder, lines 153 to 189) builds the header in the
  buffer \<^verbatim>\<open>static char gHeader[2000]\<close>, writes it to the file, asks for the size
  of the file, reads the file back into the buffer, replaces the placeholder
  \<^verbatim>\<open>0deadBEEF0\<close> by the size and writes the buffer over the file.

  Conventions of this section.
  \<^item> The buffer is a list of 2000 characters; a C string in it ends before the
    first \<^verbatim>\<open>NUL\<close>. A write that does not fit the buffer is undefined behaviour:
    \<open>None\<close>.
  \<^item> The file is opened in text mode for writing (\<^verbatim>\<open>"w"\<close>) and for the patch
    (\<^verbatim>\<open>"r+"\<close>), and in binary mode for measuring (\<^verbatim>\<open>"rb"\<close>). The platform says
    what text mode does: nothing, or a carriage return before every newline
    on the way to the disk and the reverse on the way back.
  \<^item> The content of the file on the disk is a list of characters, one per byte.
    The success of each \<^verbatim>\<open>fopen\<close> is a parameter; reads, writes and seeks on an
    open file succeed.
  \<^item> The texts appended by \<^verbatim>\<open>CreateDataFileTaskEntry\<close> and
    \<^verbatim>\<open>CreateDataFileChannelEntry\<close> come from queries to the driver and from
    \<^verbatim>\<open>sprintf\<close>; they are parameters, the task entry together with the value
    that \<^verbatim>\<open>CreateDataFileTaskEntry\<close> returns.
\<close>

subsection \<open>Text mode and C strings\<close>

datatype platform = Posix | Windows

definition NUL :: char where
  "NUL = CHR 0x00"

definition newline_on_disk :: "platform \<Rightarrow> string" where
  "newline_on_disk pf = (case pf of Posix \<Rightarrow> [CHR 0x0A] | Windows \<Rightarrow> [CHR 0x0D, CHR 0x0A])"

definition to_disk :: "platform \<Rightarrow> string \<Rightarrow> string" where
  "to_disk pf s = concat (map (\<lambda>c. if c = CHR 0x0A then newline_on_disk pf else [c]) s)"

fun from_crlf :: "string \<Rightarrow> string" where
  "from_crlf [] = []"
| "from_crlf [c] = [c]"
| "from_crlf (c # d # s) =
     (if c = CHR 0x0D \<and> d = CHR 0x0A then d # from_crlf s else c # from_crlf (d # s))"

definition from_disk :: "platform \<Rightarrow> string \<Rightarrow> string" where
  "from_disk pf s = (case pf of Posix \<Rightarrow> s | Windows \<Rightarrow> from_crlf s)"

text \<open>The C string that starts at the beginning of a buffer.\<close>

definition cstring :: "string \<Rightarrow> string" where
  "cstring mem = takeWhile (\<lambda>c. c \<noteq> NUL) mem"

text \<open>Storing characters at an offset of a buffer.\<close>

definition poke :: "string \<Rightarrow> nat \<Rightarrow> string \<Rightarrow> string option" where
  "poke mem off bytes =
     (if off + length bytes \<le> length mem
      then Some (take off mem @ bytes @ drop (off + length bytes) mem) else None)"

definition strcpy :: "string \<Rightarrow> string \<Rightarrow> string option" where
  "strcpy mem s = poke mem 0 (s @ [NUL])"

text \<open>
  \<^verbatim>\<open>strcat(gHeader,s)\<close>; \<^verbatim>\<open>sprintf(gHeader+strlen(gHeader),...)\<close> stores its output in
  the same place.
\<close>

definition strcat :: "string \<Rightarrow> string \<Rightarrow> string option" where
  "strcat mem s = poke mem (length (cstring mem)) (s @ [NUL])"

fun strcat_all :: "string \<Rightarrow> string list \<Rightarrow> string option" where
  "strcat_all mem [] = Some mem"
| "strcat_all mem (s # ss) = do { mem' \<leftarrow> strcat mem s; strcat_all mem' ss }"

text \<open>The offset of the first occurrence of \<open>needle\<close>, if there is one.\<close>

fun strstr :: "string \<Rightarrow> string \<Rightarrow> nat option" where
  "strstr [] needle = (if needle = [] then Some 0 else None)"
| "strstr (c # hay) needle =
     (if take (length needle) (c # hay) = needle then Some 0
      else map_option Suc (strstr hay needle))"

text \<open>The decimal digits of a number, and the output of \<^verbatim>\<open>sprintf(s,"%010d",n)\<close>.\<close>

function dec :: "nat \<Rightarrow> string" where
  "dec n = (if n < 10 then [''0123456789'' ! n] else dec (n div 10) @ [''0123456789'' ! (n mod 10)])"
  by pat_completeness auto
termination
  by (relation "measure id") auto

declare dec.simps [simp del]

definition sprintf_010d :: "int \<Rightarrow> string" where
  "sprintf_010d n =
     (if n < 0 then CHR ''-'' # replicate (9 - length (dec (nat (- n)))) CHR ''0'' @ dec (nat (- n))
      else replicate (10 - length (dec (nat n))) CHR ''0'' @ dec (nat n))"

text \<open>\<^verbatim>\<open>fwrite\<close> at an offset of a file that is open for update.\<close>

definition overwrite :: "string \<Rightarrow> nat \<Rightarrow> string \<Rightarrow> string" where
  "overwrite disk off bytes = take off disk @ bytes @ drop (off + length bytes) disk"

subsection \<open>\<^verbatim>\<open>CreateDataFileHeader\<close>\<close>

text \<open>Which of the calls of \<^verbatim>\<open>fopen\<close> succeed, by mode.\<close>

record Opens =
  open_w :: bool
  open_rb :: bool
  open_rw :: bool
  open_ab :: bool

definition header_start :: string where
  "header_start = ''[DAQCompressedBinaryFile]\<newline>Version=1.0.0\<newline>HeaderSize=0deadBEEF0\<newline>NumberOfTasks=1\<newline>''"

definition header_end :: string where
  "header_end = ''[BinaryData]\<newline>Begin=Here\<newline>''"

text \<open>\<^verbatim>\<open>FindOutFileSize\<close> (lines 192 to 202): the size is 0 when the file cannot be opened.\<close>

definition FindOutFileSize :: "bool \<Rightarrow> string \<Rightarrow> long" where
  "FindOutFileSize opened disk = (if opened then of_nat (length disk) else 0)"

text \<open>
  Lines 173 to 177: \<^verbatim>\<open>ch = s[10]; sprintf(s,"%010d",(int)size); s[10] = ch;\<close> at
  the placeholder, if it is found. \<^verbatim>\<open>sprintf\<close> stores a terminator after its
  output, which is why the character after the field is saved and restored.
\<close>

definition PatchHeaderSize :: "string \<Rightarrow> uInt32 \<Rightarrow> string option" where
  "PatchHeaderSize mem sz =
     (case strstr (cstring mem) ''0deadBEEF0'' of
        None \<Rightarrow> Some mem
      | Some p \<Rightarrow>
          do {
            mem' \<leftarrow> poke mem p (sprintf_010d (sint sz) @ [NUL]);
            poke mem' (p + 10) [mem ! (p + 10)]
          })"

text \<open>
  The function returns its \<^verbatim>\<open>bool32\<close> and the content of the file, \<open>None\<close> if no
  file was created. After a return of \<^verbatim>\<open>TRUE\<close> the file is open for appending in
  binary mode, so the data follow the header.
\<close>

definition CreateDataFileHeader ::
  "platform \<Rightarrow> Opens \<Rightarrow> string \<Rightarrow> string \<times> bool \<Rightarrow> string list \<Rightarrow> string
     \<Rightarrow> (bool \<times> string option) option" where
  "CreateDataFileHeader pf opens filePath taskEntry channelEntries gHeader =
     (if filePath = [] \<or> \<not> open_w opens then Some (False, None)
      else do {
        m1 \<leftarrow> strcpy gHeader header_start;
        m2 \<leftarrow> strcat m1 (fst taskEntry);
        if \<not> snd taskEntry then Some (False, Some [])
        else do {
          m3 \<leftarrow> strcat_all m2 channelEntries;
          m4 \<leftarrow> strcat m3 header_end;
          let disk1 = to_disk pf (cstring m4);
          let sz = FindOutFileSize (open_rb opens) disk1;
          if \<not> open_rw opens then Some (False, Some disk1)
          else do {
            m5 \<leftarrow> poke m4 0 (take (unat (2 * sz)) (from_disk pf disk1));
            m6 \<leftarrow> PatchHeaderSize m5 sz;
            let disk2 = overwrite disk1 0 (to_disk pf (cstring m6));
            Some (open_ab opens, Some disk2)
          }
        }
      })"

subsection \<open>Reference functions\<close>

text \<open>
  The header as a text: the fixed lines with \<open>field\<close> as the value of
  \<^verbatim>\<open>HeaderSize\<close>, the task entry, the channel entries and the two closing lines.
\<close>

definition header_with :: "string \<Rightarrow> string \<Rightarrow> string list \<Rightarrow> string" where
  "header_with field taskText channelTexts =
     ''[DAQCompressedBinaryFile]\<newline>Version=1.0.0\<newline>HeaderSize='' @ field
     @ ''\<newline>NumberOfTasks=1\<newline>'' @ taskText @ concat channelTexts
     @ ''[BinaryData]\<newline>Begin=Here\<newline>''"

text \<open>A buffer holds the C string \<open>s\<close>.\<close>

definition holds :: "string \<Rightarrow> string \<Rightarrow> bool" where
  "holds mem s \<longleftrightarrow> NUL \<notin> set s \<and> (\<exists>r. mem = s @ NUL # r)"

text \<open>
  The entries that the encoder writes for a task of one 16-bit channel that is
  stored in 12 bits, and a run in which every \<^verbatim>\<open>fopen\<close> succeeds.
\<close>

definition e_task :: "string \<times> bool" where
  "e_task = (''[Task0]\<newline>Name=_unnamedTask<0>\<newline>NumberOfChannels=1\<newline>ReadBlockSize=1000\<newline>ReadBlockSizeInBytes=1500\<newline>'', True)"

definition e_chan :: "string" where
  "e_chan = ''[Task0Channel0]\<newline>Name=Dev1/ai0\<newline>RawSampleResolution=16\<newline>RawSampleSizeInBits=16\<newline>RawSampleJustification=Right\<newline>SignedNumber=TRUE\<newline>CompressionType=LosslessPacking\<newline>CompressedSampleSizeInBits=12\<newline>CompressionByteOrder=LittleEndian\<newline>PolynomialScalingCoeffs=0.000000000000000E+00;1.000000000000000E+00;\<newline>''"

definition e_opens :: Opens where
  "e_opens = \<lparr>open_w = True, open_rb = True, open_rw = True, open_ab = True\<rparr>"

subsection \<open>C strings in the buffer and text mode\<close>

lemma holds_cstring: "holds mem s \<Longrightarrow> cstring mem = s"
  by (auto simp: holds_def cstring_def takeWhile_append2 takeWhile_tail)

lemma holds_take: "holds mem s \<Longrightarrow> take (length s) mem = s"
  by (auto simp: holds_def)

lemma holds_length: "holds mem s \<Longrightarrow> length s < length mem"
  by (auto simp: holds_def)

lemma poke_length: "poke mem off bytes = Some mem' \<Longrightarrow> length mem' = length mem"
  by (auto simp: poke_def split: if_splits)

lemma strcpy_holds:
  assumes "NUL \<notin> set s" and "length s < length mem"
  shows "\<exists>mem'. strcpy mem s = Some mem' \<and> holds mem' s \<and> length mem' = length mem"
  using assms by (auto simp: strcpy_def poke_def holds_def)

lemma strcat_holds:
  assumes "holds mem s" and "NUL \<notin> set t" and "length s + length t < length mem"
  shows "\<exists>mem'. strcat mem t = Some mem' \<and> holds mem' (s @ t) \<and> length mem' = length mem"
proof -
  from assms(1) obtain r where mem: "mem = s @ NUL # r" and s: "NUL \<notin> set s"
    by (auto simp: holds_def)
  have c: "cstring mem = s" by (rule holds_cstring [OF assms(1)])
  have "strcat mem t = Some (s @ t @ NUL # drop (length s + length t + 1) mem)"
    using assms(3) by (simp add: strcat_def c poke_def) (simp add: mem)
  with s assms(2,3) show ?thesis
    by (auto simp: holds_def)
qed

lemma strcat_all_holds:
  assumes "holds mem s" and "\<forall>e \<in> set es. NUL \<notin> set e"
    and "length s + length (concat es) < length mem"
  shows "\<exists>mem'. strcat_all mem es = Some mem' \<and> holds mem' (s @ concat es)
           \<and> length mem' = length mem"
  using assms
proof (induction es arbitrary: mem s)
  case Nil
  then show ?case by simp
next
  case (Cons e es)
  from Cons.prems have "NUL \<notin> set e" "length s + length e < length mem" by simp_all
  from strcat_holds [OF Cons.prems(1) this] obtain mem1 where
    m1: "strcat mem e = Some mem1" "holds mem1 (s @ e)" "length mem1 = length mem" by blast
  from Cons.prems m1(3) have "\<forall>e \<in> set es. NUL \<notin> set e"
    "length (s @ e) + length (concat es) < length mem1" by simp_all
  from Cons.IH [OF m1(2) this] m1(1,3) show ?case by simp
qed

lemma to_disk_append: "to_disk pf (a @ b) = to_disk pf a @ to_disk pf b"
  by (simp add: to_disk_def)

lemma to_disk_plain: "CHR 0x0A \<notin> set s \<Longrightarrow> to_disk pf s = s"
  by (induction s) (auto simp: to_disk_def)

lemma to_crlf_head: "to_disk Windows s \<noteq> CHR 0x0A # r"
  by (cases s) (simp_all add: to_disk_def newline_on_disk_def)

lemma from_crlf_cr:
  assumes "\<And>r. s \<noteq> CHR 0x0A # r"
  shows "from_crlf (c # s) = (if s = [] then [c] else c # from_crlf s)"
  using assms by (cases s) auto

lemma from_crlf_to_disk: "from_crlf (to_disk Windows s) = s"
proof (induction s)
  case Nil
  show ?case by (simp add: to_disk_def)
next
  case (Cons c s)
  show ?case
  proof (cases "c = CHR 0x0A")
    case True
    with Cons show ?thesis by (simp add: to_disk_def newline_on_disk_def)
  next
    case False
    have "to_disk Windows (c # s) = c # to_disk Windows s"
      using False by (simp add: to_disk_def)
    moreover have "from_crlf (c # to_disk Windows s) = c # from_crlf (to_disk Windows s)"
      using from_crlf_cr [of "to_disk Windows s" c] to_crlf_head [of s]
      by (cases "to_disk Windows s = []") auto
    ultimately show ?thesis using Cons by simp
  qed
qed

lemma from_disk_to_disk: "from_disk pf (to_disk pf s) = s"
proof (cases pf)
  case Posix
  have "to_disk Posix s = s" by (induction s) (simp_all add: to_disk_def newline_on_disk_def)
  with Posix show ?thesis by (simp add: from_disk_def)
next
  case Windows
  then show ?thesis by (simp add: from_disk_def from_crlf_to_disk)
qed

lemma length_to_disk: "length s \<le> length (to_disk pf s) \<and> length (to_disk pf s) \<le> 2 * length s"
  by (induction s) (auto simp: to_disk_def newline_on_disk_def split: platform.splits)

subsection \<open>The decimal field\<close>

lemma digit_char:
  assumes "k < 10"
  shows "''0123456789'' ! k \<in> set ''0123456789''"
    and "of_char (''0123456789'' ! k) - 48 = int k"
    and "''0123456789'' ! k \<noteq> NUL" and "''0123456789'' ! k \<noteq> CHR 0x0A"
proof -
  from assms consider "k = 0" | "k = 1" | "k = 2" | "k = 3" | "k = 4" | "k = 5" | "k = 6"
    | "k = 7" | "k = 8" | "k = 9" by atomize_elim arith
  then show "''0123456789'' ! k \<in> set ''0123456789''"
    and "of_char (''0123456789'' ! k) - 48 = int k"
    and "''0123456789'' ! k \<noteq> NUL" and "''0123456789'' ! k \<noteq> CHR 0x0A"
    by (cases; simp add: NUL_def)+
qed

lemma dec_digits: "set (dec n) \<subseteq> set ''0123456789''"
proof (induction n rule: dec.induct)
  case (1 n)
  show ?case
  proof (cases "n < 10")
    case True
    then show ?thesis using digit_char(1) [of n] by (subst dec.simps) simp
  next
    case False
    have "n mod 10 < 10" by simp
    from digit_char(1) [OF this] "1.IH" [OF False] False show ?thesis
      by (subst dec.simps) simp
  qed
qed

lemma dec_length: "n < 10 ^ k \<Longrightarrow> 0 < k \<Longrightarrow> length (dec n) \<le> k"
proof (induction n arbitrary: k rule: dec.induct)
  case (1 n)
  show ?case
  proof (cases "n < 10")
    case True
    with "1.prems" show ?thesis by (subst dec.simps) simp
  next
    case False
    with "1.prems" obtain j where k: "k = Suc j" by (cases k) auto
    with "1.prems" False have j: "0 < j" by (cases j) auto
    from "1.prems" k have "n div 10 < 10 ^ j"
      by (simp add: less_mult_imp_div_less mult.commute)
    from "1.IH" [OF False this j] False k show ?thesis
      by (subst dec.simps) simp
  qed
qed

lemma dec_value_snoc: "dec_value (s @ [c]) = 10 * dec_value s + (of_char c - 48)"
  by (simp add: dec_value_def)

lemma dec_value_dec: "dec_value (dec n) = int n"
proof (induction n rule: dec.induct)
  case (1 n)
  show ?case
  proof (cases "n < 10")
    case True
    then show ?thesis
      using digit_char(2) [of n] by (subst dec.simps) (simp add: dec_value_def)
  next
    case False
    have "n mod 10 < 10" by simp
    note d = digit_char(2) [OF this]
    have "10 * (n div 10) + n mod 10 = n" by simp
    then have "int (10 * (n div 10) + n mod 10) = int n" by simp
    then have a: "10 * int (n div 10) + int (n mod 10) = int n"
      by (simp only: of_nat_add of_nat_mult of_nat_numeral)
    from False have "dec n = dec (n div 10) @ [''0123456789'' ! (n mod 10)]"
      by (subst dec.simps) simp
    with d "1.IH" [OF False] a show ?thesis
      by (simp only: dec_value_snoc)
  qed
qed

lemma dec_value_zeros: "dec_value (replicate k CHR ''0'' @ s) = dec_value s"
proof -
  have "foldl (\<lambda>a c. 10 * a + (of_char c - 48)) (0 :: int) (replicate k CHR ''0'') = 0"
    by (induction k) simp_all
  then show ?thesis by (simp add: dec_value_def)
qed

lemma sprintf_010d_nat:
  assumes "n < 10 ^ 10"
  shows "length (sprintf_010d (int n)) = 10"
    and "set (sprintf_010d (int n)) \<subseteq> set ''0123456789''"
    and "dec_value (sprintf_010d (int n)) = int n"
proof -
  have s: "sprintf_010d (int n) = replicate (10 - length (dec n)) CHR ''0'' @ dec n"
    by (simp add: sprintf_010d_def)
  from dec_length [OF assms] show "length (sprintf_010d (int n)) = 10"
    by (simp add: s)
  from dec_digits [of n] show "set (sprintf_010d (int n)) \<subseteq> set ''0123456789''"
    unfolding s by (auto split: if_splits)
  show "dec_value (sprintf_010d (int n)) = int n"
    by (simp add: s dec_value_zeros dec_value_dec)
qed

subsection \<open>The patch\<close>

lemma strstr_placeholder:
  "strstr (''[DAQCompressedBinaryFile]\<newline>Version=1.0.0\<newline>HeaderSize='' @ ''0deadBEEF0'' @ R)
     ''0deadBEEF0'' = Some 51"
  by simp

lemma CreateDataFileHeader_aux:
  fixes pf :: platform and taskEntry :: "string \<times> bool" and channelEntries :: "string list"
  assumes path: "filePath \<noteq> []" and opens: "open_w opens" "open_rb opens" "open_rw opens"
    and ok: "snd taskEntry"
    and nul: "NUL \<notin> set (fst taskEntry)" "\<forall>e \<in> set channelEntries. NUL \<notin> set e"
    and cap: "length gHeader = 2000"
    and len: "length (header_with ''0deadBEEF0'' (fst taskEntry) channelEntries) < 2000"
  defines "N \<equiv> length (to_disk pf (header_with ''0deadBEEF0'' (fst taskEntry) channelEntries))"
  shows "CreateDataFileHeader pf opens filePath taskEntry channelEntries gHeader =
      Some (open_ab opens,
            Some (to_disk pf (header_with (sprintf_010d (int N)) (fst taskEntry) channelEntries)))"
    and "length (to_disk pf (header_with (sprintf_010d (int N)) (fst taskEntry) channelEntries)) = N"
    and "N < 10 ^ 10"
proof -
  let ?T = "fst taskEntry" and ?Es = channelEntries
  define P where "P = ''[DAQCompressedBinaryFile]\<newline>Version=1.0.0\<newline>HeaderSize=''"
  define R where "R = ''\<newline>NumberOfTasks=1\<newline>'' @ ?T @ concat ?Es @ header_end"
  define H0 where "H0 = header_with ''0deadBEEF0'' ?T ?Es"
  define d where "d = sprintf_010d (int N)"
  define H1 where "H1 = header_with d ?T ?Es"
  have H0: "H0 = P @ ''0deadBEEF0'' @ R" and H0': "H0 = header_start @ ?T @ concat ?Es @ header_end"
    and H1: "H1 = P @ d @ R"
    by (simp_all add: H0_def H1_def header_with_def P_def R_def header_start_def header_end_def)
  have lP: "length P = 51" by (simp add: P_def)
  have lH: "length H0 < 2000" using len by (simp add: H0_def)
  have N: "N = length (to_disk pf H0)" by (simp add: N_def H0_def)
  have Nb: "N \<le> 2 * length H0" "length H0 \<le> N" using length_to_disk [of H0 pf] by (simp_all add: N)
  with lH show N10: "N < 10 ^ 10" by simp
  from sprintf_010d_nat [OF N10] have ld: "length d = 10" and sd: "set d \<subseteq> set ''0123456789''"
    by (simp_all add: d_def)
  from sd have dn: "NUL \<notin> set d" "CHR 0x0A \<notin> set d" by (auto simp: NUL_def)
  \<comment> \<open>building the header in memory\<close>
  have "NUL \<notin> set header_start" "length header_start < length gHeader"
    by (simp_all add: header_start_def NUL_def cap)
  from strcpy_holds [OF this] obtain m1 where
    m1: "strcpy gHeader header_start = Some m1" "holds m1 header_start" "length m1 = 2000"
    using cap by auto
  have "length header_start + length ?T < length m1" using lH m1(3) by (simp add: H0')
  from strcat_holds [OF m1(2) nul(1) this] obtain m2 where
    m2: "strcat m1 ?T = Some m2" "holds m2 (header_start @ ?T)" "length m2 = 2000"
    using m1(3) by auto
  have "length (header_start @ ?T) + length (concat ?Es) < length m2"
    using lH m2(3) by (simp add: H0')
  from strcat_all_holds [OF m2(2) nul(2) this] obtain m3 where
    m3: "strcat_all m2 ?Es = Some m3" "holds m3 ((header_start @ ?T) @ concat ?Es)" "length m3 = 2000"
    using m2(3) by auto
  have "NUL \<notin> set header_end"
    "length ((header_start @ ?T) @ concat ?Es) + length header_end < length m3"
    using lH m3(3) by (simp_all add: H0' header_end_def NUL_def)
  from strcat_holds [OF m3(2) this] obtain m4 where
    m4: "strcat m3 header_end = Some m4" "holds m4 H0" "length m4 = 2000"
    using m3(3) by (auto simp: H0')
  from m4(2) obtain r where r: "m4 = H0 @ NUL # r" and nH: "NUL \<notin> set H0"
    by (auto simp: holds_def)
  have c4: "cstring m4 = H0" by (rule holds_cstring [OF m4(2)])
  \<comment> \<open>the size of the file and what is read back\<close>
  define sz :: uInt32 where "sz = of_nat N"
  have usz: "unat sz = N" using Nb lH by (simp add: sz_def unat_of_nat)
  have "unat (2 * sz) = 2 * N"
    using Nb lH by (simp add: unat_word_ariths usz)
  then have rd: "take (unat (2 * sz)) (from_disk pf (to_disk pf H0)) = H0"
    using Nb by (simp add: from_disk_to_disk)
  have p0: "poke m4 0 H0 = Some m4"
    using lH m4(3) by (simp add: poke_def r)
  have "sz < 2 ^ 31" using usz Nb lH by (simp add: word_less_nat_alt)
  then have "\<not> bit sz 31" by (rule high_bits_clear) simp
  then have "sint sz = uint sz"
    by (intro bit_eqI) (auto simp: bit_sint_iff bit_uint_iff dest: bit_imp_le_length)
  moreover have "uint sz = int (unat sz)" by simp
  ultimately have ssz: "sint sz = int N"
    by (simp only: usz)
  \<comment> \<open>the patch\<close>
  have st: "strstr (cstring m4) ''0deadBEEF0'' = Some 51"
    unfolding c4 H0 P_def by (rule strstr_placeholder)
  have mem: "m4 = P @ ''0deadBEEF0'' @ R @ NUL # r" by (simp add: r H0)
  have lR: "0 < length R" by (simp add: R_def)
  then obtain c R' where R': "R = c # R'" by (cases R) auto
  have ch: "m4 ! 61 = c" using lP by (simp add: mem R' nth_append)
  have pk1: "poke m4 51 (d @ [NUL]) = Some (P @ d @ NUL # R' @ NUL # r)"
    using lP ld m4(3) by (simp add: poke_def) (simp add: mem R')
  have pk2: "poke (P @ d @ NUL # R' @ NUL # r) 61 [c] = Some (H1 @ NUL # r)"
    using lP ld by (simp add: poke_def H1 R')
  have patch: "PatchHeaderSize m4 sz = Some (H1 @ NUL # r)"
    using pk2 by (simp add: PatchHeaderSize_def st ssz d_def [symmetric] pk1 ch)
  have nH1: "NUL \<notin> set H1" using nH dn by (simp add: H0 H1)
  then have c6: "cstring (H1 @ NUL # r) = H1"
    by (intro holds_cstring) (auto simp: holds_def)
  \<comment> \<open>writing the patched header over the file\<close>
  have e1: "to_disk pf H1 = to_disk pf P @ d @ to_disk pf R"
    using dn by (simp add: H1 to_disk_append to_disk_plain)
  have e0: "to_disk pf H0 = to_disk pf P @ ''0deadBEEF0'' @ to_disk pf R"
    by (subst H0) (simp only: to_disk_append, simp add: to_disk_def)
  have lH1: "length (to_disk pf H1) = N"
    unfolding N e1 e0 using ld by simp
  then show l1: "length (to_disk pf (header_with (sprintf_010d (int N)) ?T ?Es)) = N"
    unfolding H1_def d_def .
  have ow: "overwrite (to_disk pf H0) 0 (to_disk pf H1) = to_disk pf H1"
    using lH1 by (simp add: overwrite_def N)
  show "CreateDataFileHeader pf opens filePath taskEntry channelEntries gHeader =
      Some (open_ab opens,
            Some (to_disk pf (header_with (sprintf_010d (int N)) ?T ?Es)))"
    using path opens ok
    by (simp add: CreateDataFileHeader_def FindOutFileSize_def m1 m2 m3 m4 c4 Let_def
        sz_def [symmetric] N [symmetric]
        rd p0 patch c6 ow H1_def [symmetric] d_def [symmetric] usz)
qed

subsection \<open>Claim about the encoder\<close>

text \<open>
  C8. Let every \<^verbatim>\<open>fopen\<close> up to the patch succeed, let \<^verbatim>\<open>CreateDataFileTaskEntry\<close>
  return success, and let the header, which has no \<^verbatim>\<open>NUL\<close> in it, fit the buffer
  of 2000 characters. Then \<^verbatim>\<open>CreateDataFileHeader\<close> leaves a file that is the
  header with the placeholder replaced by a field of 10 decimal digits, and with
  nothing else changed; the file has the length \<open>N\<close> that the file with the
  placeholder had, and the value of the field is \<open>N\<close>. The file ends with the line
  \<^verbatim>\<open>Begin=Here\<close> and is then opened for appending, so \<open>N\<close> is the offset of the
  first byte of the data. This holds in both text modes: where a newline takes
  two bytes on the disk, \<open>N\<close> counts them.
\<close>

theorem CreateDataFileHeader_stores_header_size:
  assumes "filePath \<noteq> []" and "open_w opens" and "open_rb opens" and "open_rw opens"
    and "snd taskEntry"
    and "NUL \<notin> set (fst taskEntry)" and "\<forall>e \<in> set channelEntries. NUL \<notin> set e"
    and "length gHeader = 2000"
    and "length (header_with ''0deadBEEF0'' (fst taskEntry) channelEntries) < 2000"
  shows "let N = length (to_disk pf (header_with ''0deadBEEF0'' (fst taskEntry) channelEntries));
             field = sprintf_010d (int N);
             written = to_disk pf (header_with field (fst taskEntry) channelEntries)
         in CreateDataFileHeader pf opens filePath taskEntry channelEntries gHeader
              = Some (open_ab opens, Some written)
            \<and> length written = N
            \<and> length field = 10 \<and> set field \<subseteq> set ''0123456789'' \<and> dec_value field = int N"
proof -
  note aux = CreateDataFileHeader_aux [OF assms, of pf]
  from sprintf_010d_nat [OF aux(3)] aux(1,2) show ?thesis
    by (simp add: Let_def)
qed

theorem CreateDataFileHeader_stores_header_size_witness:
  "CreateDataFileHeader Posix e_opens ''stream.cfg'' e_task [e_chan] (replicate 2000 NUL)
     = Some (True, Some (header_with ''0000000483'' (fst e_task) [e_chan]))
   \<and> length (header_with ''0000000483'' (fst e_task) [e_chan]) = 483
   \<and> dec_value ''0000000483'' = 483
   \<and> CreateDataFileHeader Windows e_opens ''stream.cfg'' e_task [e_chan] (replicate 2000 NUL)
     = Some (True, Some (to_disk Windows (header_with ''0000000504'' (fst e_task) [e_chan])))
   \<and> length (to_disk Windows (header_with ''0000000504'' (fst e_task) [e_chan])) = 504
   \<and> dec_value ''0000000504'' = 504"
proof -
  have n: "length (to_disk Posix (header_with ''0deadBEEF0'' (fst e_task) [e_chan])) = 483"
    "length (to_disk Windows (header_with ''0deadBEEF0'' (fst e_task) [e_chan])) = 504"
    by code_simp+
  have f: "sprintf_010d (int 483) = ''0000000483''" "sprintf_010d (int 504) = ''0000000504''"
    by code_simp+
  have w: "to_disk Posix (header_with ''0000000483'' (fst e_task) [e_chan])
      = header_with ''0000000483'' (fst e_task) [e_chan]" by code_simp
  have h: "''stream.cfg'' \<noteq> []" "open_w e_opens" "open_rb e_opens" "open_rw e_opens" "snd e_task"
    "NUL \<notin> set (fst e_task)" "\<forall>e \<in> set [e_chan]. NUL \<notin> set e"
    "length (replicate 2000 NUL) = 2000"
    "length (header_with ''0deadBEEF0'' (fst e_task) [e_chan]) < 2000"
    by code_simp+
  have o: "open_ab e_opens = True" by code_simp
  from CreateDataFileHeader_stores_header_size [OF h, of Posix]
    CreateDataFileHeader_stores_header_size [OF h, of Windows]
  show ?thesis
    unfolding Let_def n f w o by simp
qed

text \<open>
  The parser of the decoder reads the field of this file back as the offset:
  \<^verbatim>\<open>headerSize\<close> is 483, the length of the header.
\<close>

lemma written_header_parses_back:
  "map_option headerSize (ParseDataFileHeader f prev loc fresh
     (Some (header_with ''0000000483'' (fst e_task) [e_chan] @ rawData))) = Some 483"
  by (simp add: ParseDataFileHeader_def ParseTask_def header_with_def e_task_def e_chan_def scan_eval)

end
